theory Spec2Isabelle
  imports
    Main
    "HOL-Library.Multiset"
    "HOL-Library.List_Lexorder"
    "HOL-Library.Char_ord"
    "HOL-Library.Product_Lexorder"
begin

section \<open>Text\<close>

text \<open>
  Python \<open>str\<close> values are modelled as \<^typ>\<open>string\<close>; a \<^typ>\<open>char\<close> stands for the code
  point with the same number (U+0000 to U+00FF). The character predicates below are
  Python's on that range: \<open>str.isspace\<close> (also the regex class \<open>\s\<close>), the regex classes
  \<open>\w\<close> and \<open>\d\<close>, and \<open>str.lower\<close>.
\<close>

abbreviation bsl :: char where "bsl \<equiv> CHR 0x5C"
abbreviation dquote :: char where "dquote \<equiv> CHR 0x22"
abbreviation squote :: char where "squote \<equiv> CHR 0x27"
abbreviation newline :: char where "newline \<equiv> CHR 0x0A"

definition code :: "char \<Rightarrow> nat" where
  "code c = of_char c"

definition is_space :: "char \<Rightarrow> bool" where
  "is_space c = (let n = code c in
     (9 \<le> n \<and> n \<le> 13) \<or> (28 \<le> n \<and> n \<le> 32) \<or> n = 133 \<or> n = 160)"

definition is_digit :: "char \<Rightarrow> bool" where
  "is_digit c = (let n = code c in 48 \<le> n \<and> n \<le> 57)"

definition is_ascii_letter :: "char \<Rightarrow> bool" where
  "is_ascii_letter c = (let n = code c in (65 \<le> n \<and> n \<le> 90) \<or> (97 \<le> n \<and> n \<le> 122))"

definition is_word :: "char \<Rightarrow> bool" where
  "is_word c = (let n = code c in
     is_ascii_letter c \<or> is_digit c \<or> n = 95 \<or>
     n = 170 \<or> n = 178 \<or> n = 179 \<or> n = 181 \<or> n = 185 \<or> n = 186 \<or>
     n = 188 \<or> n = 189 \<or> n = 190 \<or> (192 \<le> n \<and> n \<noteq> 215 \<and> n \<noteq> 247))"

definition lower_char :: "char \<Rightarrow> char" where
  "lower_char c = (let n = code c in
     if (65 \<le> n \<and> n \<le> 90) \<or> (192 \<le> n \<and> n \<le> 222 \<and> n \<noteq> 215)
     then char_of (n + 32) else c)"

definition lower :: "string \<Rightarrow> string" where
  "lower s = map lower_char s"

text \<open>\<open>s.strip()\<close>: leading and trailing whitespace removed.\<close>

definition strip :: "string \<Rightarrow> string" where
  "strip s = rev (dropWhile is_space (rev (dropWhile is_space s)))"

text \<open>\<open>s.startswith(p)\<close>, \<open>s.endswith(p)\<close> and \<open>p in s\<close> on strings.\<close>

definition startswith :: "string \<Rightarrow> string \<Rightarrow> bool" where
  "startswith s p = (take (length p) s = p)"

definition endswith :: "string \<Rightarrow> string \<Rightarrow> bool" where
  "endswith s p = (length p \<le> length s \<and> drop (length s - length p) s = p)"

fun contains :: "string \<Rightarrow> string \<Rightarrow> bool" where
  "contains [] p = (p = [])"
| "contains (c # cs) p = (startswith (c # cs) p \<or> contains cs p)"

text \<open>
  \<open>s.rsplit(sep, 1)[0]\<close>: the text before the rightmost occurrence of \<open>sep\<close>, or all of
  \<open>s\<close> when \<open>sep\<close> does not occur. The rightmost occurrence in \<open>s\<close> is the leftmost
  occurrence of the reversed separator in the reversed text.
\<close>

fun after_first :: "string \<Rightarrow> string \<Rightarrow> string option" where
  "after_first sep [] = (if sep = [] then Some [] else None)"
| "after_first sep (c # cs) =
     (if startswith (c # cs) sep then Some (drop (length sep) (c # cs))
      else after_first sep cs)"

definition rsplit1_head :: "string \<Rightarrow> string \<Rightarrow> string" where
  "rsplit1_head s sep =
     (case after_first (rev sep) (rev s) of None \<Rightarrow> s | Some r \<Rightarrow> rev r)"

text \<open>
  Iterating over a text file yields its lines, each with its line end; \<open>s.split('\n')\<close>
  yields the pieces between line ends (always at least one piece).
\<close>

fun lines_from :: "string \<Rightarrow> string \<Rightarrow> string list" where
  "lines_from cur [] = (if cur = [] then [] else [cur])"
| "lines_from cur (c # cs) =
     (if c = newline then (cur @ [c]) # lines_from [] cs else lines_from (cur @ [c]) cs)"

definition file_lines :: "string \<Rightarrow> string list" where
  "file_lines text = lines_from [] text"

fun split_from :: "string \<Rightarrow> string \<Rightarrow> string list" where
  "split_from cur [] = [cur]"
| "split_from cur (c # cs) =
     (if c = newline then cur # split_from [] cs else split_from (cur @ [c]) cs)"

definition split_newline :: "string \<Rightarrow> string list" where
  "split_newline text = split_from [] text"

text \<open>Decimal rendering of a number, as \<open>str(n)\<close> and an f-string do.\<close>

definition digit_char :: "nat \<Rightarrow> char" where
  "digit_char d = char_of (48 + d)"

fun str_nat :: "nat \<Rightarrow> string" where
  "str_nat n = (if n < 10 then [digit_char n] else str_nat (n div 10) @ [digit_char (n mod 10)])"

definition str_int :: "int \<Rightarrow> string" where
  "str_int i = (if i < 0 then ''-'' @ str_nat (nat (- i)) else str_nat (nat i))"

text \<open>\<open>sep.join(parts)\<close>.\<close>

fun join :: "string \<Rightarrow> string list \<Rightarrow> string" where
  "join sep [] = []"
| "join sep [x] = x"
| "join sep (x # y # ys) = x @ sep @ join sep (y # ys)"

section \<open>Regular expressions\<close>

text \<open>
  The program builds every pattern as a string and hands it to \<open>re.compile\<close>, which raises
  \<open>re.error\<close> on a malformed pattern. The model follows the library on the fragment of the
  pattern syntax that the program's templates and \<open>re.escape\<close> can produce: a scanner
  turns the pattern text into tokens, a parser builds the expression and rejects what the
  library rejects (nothing to repeat, multiple repeat, unbalanced or missing parenthesis,
  unterminated character set, bad escape), and a matcher decides \<open>pattern.search(line)\<close>.
  Syntax outside the fragment (counted repetition, ranges in sets, look-around, back
  references, numeric and named escapes, possessive repetition) is reported as
  \<open>Unsupported\<close>, so the model fails at least wherever the library does.
\<close>

datatype error =
    BadEscape | UnterminatedSet | UnexpectedEnd | NothingToRepeat | MultipleRepeat
  | UnbalancedParenthesis | MissingParenthesis | Unsupported | ValueError

datatype cclass = Space | Word | Digit

datatype set_item = SChar char | SClass cclass bool

datatype regex =
    Eps
  | Lit char
  | AnyChar
  | Cls cclass bool
  | CSet bool "set_item list"
  | Bol
  | Eol
  | WordB bool
  | Star regex
  | Plus regex
  | Opt regex
  | Group regex
  | Seq regex regex
  | Alt regex regex

datatype token =
    TLit char | TAny | TCls cclass bool | TSet bool "set_item list" | TBol | TEol
  | TWordB bool | TStar | TPlus | TQuest | TOpen | TClose | TBar

subsection \<open>\<open>re.escape\<close>\<close>

text \<open>
  \<open>re.escape\<close> puts a backslash before each of the characters
  \<open>()[]{}?*+-|^$\.&~#\<close>, space, tab, newline, carriage return, vertical tab and form
  feed, and leaves every other character as it is.
\<close>

definition special_chars :: "char list" where
  "special_chars =
     ''()[]{}?*+-|^$.&~# '' @ [bsl, CHR 0x09, CHR 0x0A, CHR 0x0D, CHR 0x0B, CHR 0x0C]"

definition escape_char :: "char \<Rightarrow> string" where
  "escape_char c = (if c \<in> set special_chars then [bsl, c] else [c])"

definition re_escape :: "string \<Rightarrow> string" where
  "re_escape s = concat (map escape_char s)"

subsection \<open>Scanning a pattern\<close>

datatype lex_state =
    LNormal | LEsc | LParen | LParenQ | LSetStart
  | LSet bool bool "set_item list" | LSetEsc bool "set_item list"

definition normal_step :: "char \<Rightarrow> error + (token list \<times> lex_state)" where
  "normal_step c =
     (if c = bsl then Inr ([], LEsc)
      else if c = CHR ''['' then Inr ([], LSetStart)
      else if c = CHR ''('' then Inr ([], LParen)
      else if c = CHR '')'' then Inr ([TClose], LNormal)
      else if c = CHR ''|'' then Inr ([TBar], LNormal)
      else if c = CHR ''*'' then Inr ([TStar], LNormal)
      else if c = CHR ''+'' then Inr ([TPlus], LNormal)
      else if c = CHR ''?'' then Inr ([TQuest], LNormal)
      else if c = CHR ''.'' then Inr ([TAny], LNormal)
      else if c = CHR ''^'' then Inr ([TBol], LNormal)
      else if c = CHR ''$'' then Inr ([TEol], LNormal)
      else if c = CHR ''{'' then Inl Unsupported
      else Inr ([TLit c], LNormal))"

text \<open>
  The character after a backslash: a class, a word boundary, a control character, or the
  character itself. An ASCII letter or digit with no meaning is an error.
\<close>

definition class_escape :: "char \<Rightarrow> (cclass \<times> bool) option" where
  "class_escape c =
     (if c = CHR ''s'' then Some (Space, False) else if c = CHR ''S'' then Some (Space, True)
      else if c = CHR ''w'' then Some (Word, False) else if c = CHR ''W'' then Some (Word, True)
      else if c = CHR ''d'' then Some (Digit, False) else if c = CHR ''D'' then Some (Digit, True)
      else None)"

definition control_escape :: "char \<Rightarrow> char option" where
  "control_escape c =
     (if c = CHR ''n'' then Some (CHR 0x0A) else if c = CHR ''t'' then Some (CHR 0x09)
      else if c = CHR ''r'' then Some (CHR 0x0D) else if c = CHR ''f'' then Some (CHR 0x0C)
      else if c = CHR ''v'' then Some (CHR 0x0B) else if c = CHR ''a'' then Some (CHR 0x07)
      else None)"

definition other_escape :: "char \<Rightarrow> error + char" where
  "other_escape c =
     (case control_escape c of
        Some k \<Rightarrow> Inr k
      | None \<Rightarrow>
          if is_digit c \<or> c \<in> set ''AZxuUN'' then Inl Unsupported
          else if is_ascii_letter c then Inl BadEscape
          else Inr c)"

definition esc_step :: "char \<Rightarrow> error + (token list \<times> lex_state)" where
  "esc_step c =
     (case class_escape c of
        Some (k, neg) \<Rightarrow> Inr ([TCls k neg], LNormal)
      | None \<Rightarrow>
          if c = CHR ''b'' then Inr ([TWordB False], LNormal)
          else if c = CHR ''B'' then Inr ([TWordB True], LNormal)
          else (case other_escape c of
                  Inl e \<Rightarrow> Inl e
                | Inr k \<Rightarrow> Inr ([TLit k], LNormal)))"

definition set_step :: "bool \<Rightarrow> bool \<Rightarrow> set_item list \<Rightarrow> char \<Rightarrow> error + (token list \<times> lex_state)" where
  "set_step neg first items c =
     (if c = CHR '']'' \<and> \<not> first then Inr ([TSet neg items], LNormal)
      else if c = bsl then Inr ([], LSetEsc neg items)
      else if c = CHR ''-'' \<and> \<not> first then Inl Unsupported
      else Inr ([], LSet neg False (items @ [SChar c])))"

definition set_esc_step :: "bool \<Rightarrow> set_item list \<Rightarrow> char \<Rightarrow> error + (token list \<times> lex_state)" where
  "set_esc_step neg items c =
     (case class_escape c of
        Some (k, n) \<Rightarrow> Inr ([], LSet neg False (items @ [SClass k n]))
      | None \<Rightarrow>
          if c = CHR ''b'' then Inr ([], LSet neg False (items @ [SChar (CHR 0x08)]))
          else (case other_escape c of
                  Inl e \<Rightarrow> Inl e
                | Inr k \<Rightarrow> Inr ([], LSet neg False (items @ [SChar k]))))"

fun lex_step :: "lex_state \<Rightarrow> char \<Rightarrow> error + (token list \<times> lex_state)" where
  "lex_step LNormal c = normal_step c"
| "lex_step LEsc c = esc_step c"
| "lex_step LParen c =
     (if c = CHR ''?'' then Inr ([], LParenQ)
      else (case normal_step c of
              Inl e \<Rightarrow> Inl e
            | Inr (ts, st) \<Rightarrow> Inr (TOpen # ts, st)))"
| "lex_step LParenQ c = (if c = CHR '':'' then Inr ([TOpen], LNormal) else Inl Unsupported)"
| "lex_step LSetStart c =
     (if c = CHR ''^'' then Inr ([], LSet True True []) else set_step False True [] c)"
| "lex_step (LSet neg first items) c = set_step neg first items c"
| "lex_step (LSetEsc neg items) c = set_esc_step neg items c"

fun lex_end :: "lex_state \<Rightarrow> error + token list" where
  "lex_end LNormal = Inr []"
| "lex_end LEsc = Inl BadEscape"
| "lex_end LParen = Inr [TOpen]"
| "lex_end LParenQ = Inl UnexpectedEnd"
| "lex_end LSetStart = Inl UnterminatedSet"
| "lex_end (LSet neg first items) = Inl UnterminatedSet"
| "lex_end (LSetEsc neg items) = Inl UnterminatedSet"

fun lex_go :: "lex_state \<Rightarrow> string \<Rightarrow> error + token list" where
  "lex_go st [] = lex_end st"
| "lex_go st (c # cs) =
     (case lex_step st c of
        Inl e \<Rightarrow> Inl e
      | Inr (ts, st') \<Rightarrow>
          (case lex_go st' cs of Inl e \<Rightarrow> Inl e | Inr rest \<Rightarrow> Inr (ts @ rest)))"

definition lex :: "string \<Rightarrow> error + token list" where
  "lex s = lex_go LNormal s"

subsection \<open>Parsing the tokens\<close>

text \<open>
  The parser keeps, for the group being read, the alternatives finished so far and the
  items of the current alternative, and a stack of the same for the enclosing groups. A
  repetition operator applies to the last item of the current alternative. The flag says
  that the previous token was a repetition operator: a \<open>?\<close> there only makes the
  repetition lazy, which does not change what \<open>search\<close> answers.
\<close>

type_synonym frame = "regex list \<times> regex list"
type_synonym pstate = "frame \<times> frame list \<times> bool"

fun seq_of :: "regex list \<Rightarrow> regex" where
  "seq_of [] = Eps"
| "seq_of (r # rs) = Seq r (seq_of rs)"

fun alt_of :: "regex list \<Rightarrow> regex" where
  "alt_of [] = Eps"
| "alt_of [r] = r"
| "alt_of (r # rs) = Alt r (alt_of rs)"

fun close_frame :: "frame \<Rightarrow> regex" where
  "close_frame (alts, cur) = alt_of (alts @ [seq_of cur])"

fun is_anchor :: "regex \<Rightarrow> bool" where
  "is_anchor Bol = True"
| "is_anchor Eol = True"
| "is_anchor (WordB neg) = True"
| "is_anchor r = False"

fun is_repeat :: "regex \<Rightarrow> bool" where
  "is_repeat (Star r) = True"
| "is_repeat (Plus r) = True"
| "is_repeat (Opt r) = True"
| "is_repeat r = False"

definition apply_repeat :: "(regex \<Rightarrow> regex) \<Rightarrow> regex list \<Rightarrow> error + regex list" where
  "apply_repeat k cur =
     (if cur = [] then Inl NothingToRepeat
      else if is_anchor (last cur) then Inl NothingToRepeat
      else if is_repeat (last cur) then Inl MultipleRepeat
      else Inr (butlast cur @ [k (last cur)]))"

definition repeat_step :: "(regex \<Rightarrow> regex) \<Rightarrow> pstate \<Rightarrow> error + pstate" where
  "repeat_step k st =
     (case st of ((alts, cur), stack, rep) \<Rightarrow>
        (case apply_repeat k cur of
           Inl e \<Rightarrow> Inl e
         | Inr cur' \<Rightarrow> Inr ((alts, cur'), stack, True)))"

definition push_item :: "regex \<Rightarrow> pstate \<Rightarrow> error + pstate" where
  "push_item r st =
     (case st of ((alts, cur), stack, rep) \<Rightarrow> Inr ((alts, cur @ [r]), stack, False))"

fun parse_step :: "token \<Rightarrow> pstate \<Rightarrow> error + pstate" where
  "parse_step (TLit c) st = push_item (Lit c) st"
| "parse_step TAny st = push_item AnyChar st"
| "parse_step (TCls k neg) st = push_item (Cls k neg) st"
| "parse_step (TSet neg items) st = push_item (CSet neg items) st"
| "parse_step TBol st = push_item Bol st"
| "parse_step TEol st = push_item Eol st"
| "parse_step (TWordB neg) st = push_item (WordB neg) st"
| "parse_step TStar st = repeat_step Star st"
| "parse_step TPlus (fr, stack, rep) =
     (if rep then Inl Unsupported else repeat_step Plus (fr, stack, rep))"
| "parse_step TQuest (fr, stack, rep) =
     (if rep then Inr (fr, stack, False) else repeat_step Opt (fr, stack, rep))"
| "parse_step TOpen (fr, stack, rep) = Inr (([], []), fr # stack, False)"
| "parse_step TClose (fr, [], rep) = Inl UnbalancedParenthesis"
| "parse_step TClose (fr, (alts, cur) # stack, rep) =
     Inr ((alts, cur @ [Group (close_frame fr)]), stack, False)"
| "parse_step TBar ((alts, cur), stack, rep) = Inr ((alts @ [seq_of cur], []), stack, False)"

fun parse_go :: "pstate \<Rightarrow> token list \<Rightarrow> error + pstate" where
  "parse_go st [] = Inr st"
| "parse_go st (t # ts) =
     (case parse_step t st of Inl e \<Rightarrow> Inl e | Inr st' \<Rightarrow> parse_go st' ts)"

definition parse :: "token list \<Rightarrow> error + regex" where
  "parse ts =
     (case parse_go (([], []), [], False) ts of
        Inl e \<Rightarrow> Inl e
      | Inr (fr, stack, rep) \<Rightarrow>
          if stack = [] then Inr (close_frame fr) else Inl MissingParenthesis)"

text \<open>A compiled pattern: the expression and the \<open>re.IGNORECASE\<close> flag.\<close>

record pattern =
  expr :: regex
  ignorecase :: bool

definition re_compile :: "string \<Rightarrow> bool \<Rightarrow> error + pattern" where
  "re_compile s icase =
     (case lex s of
        Inl e \<Rightarrow> Inl e
      | Inr ts \<Rightarrow>
          (case parse ts of
             Inl e \<Rightarrow> Inl e
           | Inr r \<Rightarrow> Inr \<lparr>expr = r, ignorecase = icase\<rparr>))"

subsection \<open>Matching\<close>

text \<open>
  \<open>re_match icase s r i\<close> lists the positions at which a match of \<open>r\<close> that starts at
  position \<open>i\<close> of \<open>s\<close> can end. \<open>^\<close> holds at the start of the text, \<open>$\<close> at its end and
  before a final line end, \<open>\b\<close> between a word character and a non-word character or a
  text boundary.
\<close>

definition char_eq :: "bool \<Rightarrow> char \<Rightarrow> char \<Rightarrow> bool" where
  "char_eq icase a b = (if icase then lower_char a = lower_char b else a = b)"

fun in_class :: "cclass \<Rightarrow> char \<Rightarrow> bool" where
  "in_class Space c = is_space c"
| "in_class Word c = is_word c"
| "in_class Digit c = is_digit c"

fun item_matches :: "bool \<Rightarrow> char \<Rightarrow> set_item \<Rightarrow> bool" where
  "item_matches icase c (SChar k) = char_eq icase c k"
| "item_matches icase c (SClass k neg) = (in_class k c \<noteq> neg)"

definition word_at :: "string \<Rightarrow> nat \<Rightarrow> bool" where
  "word_at s i = (i < length s \<and> is_word (s ! i))"

definition at_boundary :: "string \<Rightarrow> nat \<Rightarrow> bool" where
  "at_boundary s i = ((i > 0 \<and> word_at s (i - 1)) \<noteq> word_at s i)"

definition one_char :: "string \<Rightarrow> nat \<Rightarrow> (char \<Rightarrow> bool) \<Rightarrow> nat list" where
  "one_char s i P = (if i < length s \<and> P (s ! i) then [Suc i] else [])"

fun closure :: "(nat \<Rightarrow> nat list) \<Rightarrow> nat \<Rightarrow> nat list \<Rightarrow> nat list" where
  "closure f 0 ps = ps"
| "closure f (Suc n) ps =
     (let new = filter (\<lambda>q. q \<notin> set ps) (remdups (concat (map f ps)))
      in if new = [] then ps else closure f n (ps @ new))"

primrec re_match :: "bool \<Rightarrow> string \<Rightarrow> regex \<Rightarrow> nat \<Rightarrow> nat list" where
  "re_match icase s Eps = (\<lambda>i. [i])"
| "re_match icase s (Lit c) = (\<lambda>i. one_char s i (\<lambda>x. char_eq icase x c))"
| "re_match icase s AnyChar = (\<lambda>i. one_char s i (\<lambda>x. x \<noteq> newline))"
| "re_match icase s (Cls k neg) = (\<lambda>i. one_char s i (\<lambda>x. in_class k x \<noteq> neg))"
| "re_match icase s (CSet neg items) =
     (\<lambda>i. one_char s i (\<lambda>x. list_ex (item_matches icase x) items \<noteq> neg))"
| "re_match icase s Bol = (\<lambda>i. if i = 0 then [i] else [])"
| "re_match icase s Eol =
     (\<lambda>i. if i = length s \<or> (Suc i = length s \<and> s ! i = newline) then [i] else [])"
| "re_match icase s (WordB neg) = (\<lambda>i. if at_boundary s i \<noteq> neg then [i] else [])"
| "re_match icase s (Star r) = (\<lambda>i. closure (re_match icase s r) (length s) [i])"
| "re_match icase s (Plus r) =
     (\<lambda>i. closure (re_match icase s r) (length s) (remdups (re_match icase s r i)))"
| "re_match icase s (Opt r) = (\<lambda>i. remdups (i # re_match icase s r i))"
| "re_match icase s (Group r) = re_match icase s r"
| "re_match icase s (Seq a b) =
     (\<lambda>i. remdups (concat (map (re_match icase s b) (re_match icase s a i))))"
| "re_match icase s (Alt a b) = (\<lambda>i. remdups (re_match icase s a i @ re_match icase s b i))"

text \<open>
  \<open>pattern.search(s)\<close> finds a match starting anywhere; \<open>search_start\<close> is the start of the
  leftmost one (\<open>match.start()\<close>).
\<close>

definition search_start :: "pattern \<Rightarrow> string \<Rightarrow> nat option" where
  "search_start p s =
     find (\<lambda>i. re_match (ignorecase p) s (expr p) i \<noteq> []) [0..<Suc (length s)]"

definition re_search :: "pattern \<Rightarrow> string \<Rightarrow> bool" where
  "re_search p s = (search_start p s \<noteq> None)"

section \<open>Pattern compiler\<close>

text \<open>
  The templates are the program's raw f-strings with the escaped package name put in;
  \<open>bs s\<close> is a backslash followed by \<open>s\<close>, so \<open>''^'' @ bs ''s*import''\<close> is the text
  \<open>^\s*import\<close>. The flag is \<open>re.IGNORECASE\<close>. A list of \<open>re.compile\<close> calls is
  evaluated left to right and the first failure is raised.
\<close>

abbreviation bs :: "string \<Rightarrow> string" where "bs s \<equiv> bsl # s"

fun compile_all :: "(string \<times> bool) list \<Rightarrow> error + pattern list" where
  "compile_all [] = Inr []"
| "compile_all ((s, icase) # rest) =
     (case re_compile s icase of
        Inl e \<Rightarrow> Inl e
      | Inr p \<Rightarrow> (case compile_all rest of Inl e \<Rightarrow> Inl e | Inr ps \<Rightarrow> Inr (p # ps)))"

definition get_definition_patterns :: "string \<Rightarrow> string \<Rightarrow> error + pattern list" where
  "get_definition_patterns pkg lang =
     (let escaped = re_escape pkg in
      if lang = ''python'' then Inr []
      else if lang = ''csharp'' then
        compile_all
          [(''^'' @ bs ''s*namespace'' @ bs ''s+'' @ escaped @ bs ''s*[{;]'', True),
           (''^'' @ bs ''s*namespace'' @ bs ''s+'' @ escaped @ bs ''.'', True)]
      else if lang = ''perl'' then
        compile_all
          [(''^'' @ bs ''s*package'' @ bs ''s+'' @ escaped @ bs ''s*;'', False),
           (''^'' @ bs ''s*package'' @ bs ''s+'' @ escaped @ ''::'', False)]
      else if lang = ''rust'' then
        compile_all
          [(''^'' @ bs ''s*(?:pub'' @ bs ''s+)?mod'' @ bs ''s+'' @ escaped @ bs ''s*'' @ bs ''{'', False),
           (''^'' @ bs ''s*(?:pub'' @ bs ''s+)?mod'' @ bs ''s+'' @ escaped @ bs ''s*;'', False),
           (''^'' @ bs ''s*name'' @ bs ''s*='' @ bs ''s*'' @ [dquote] @ escaped @ [dquote], False)]
      else Inr [])"

definition get_import_patterns :: "string \<Rightarrow> string \<Rightarrow> error + pattern list" where
  "get_import_patterns pkg lang =
     (let escaped = re_escape pkg in
      if lang = ''python'' then
        compile_all
          [(''^'' @ bs ''s*import'' @ bs ''s+'' @ escaped @ ''(?:'' @ bs ''s|$|,)'', False),
           (''^'' @ bs ''s*from'' @ bs ''s+'' @ escaped @ ''(?:'' @ bs ''.|$|'' @ bs ''s)'', False),
           (''^'' @ bs ''s*import'' @ bs ''s+.*'' @ bs ''b'' @ escaped @ bs ''b'', False)]
      else if lang = ''csharp'' then
        compile_all
          [(''^'' @ bs ''s*using'' @ bs ''s+'' @ escaped @ bs ''s*;'', True),
           (''^'' @ bs ''s*using'' @ bs ''s+'' @ escaped @ bs ''.'', True),
           (''^'' @ bs ''s*using'' @ bs ''s+static'' @ bs ''s+'' @ escaped @ bs ''.'', True),
           (''^'' @ bs ''s*using'' @ bs ''s+'' @ bs ''w+'' @ bs ''s*='' @ bs ''s*'' @ escaped, True)]
      else if lang = ''perl'' then
        compile_all
          [(''^'' @ bs ''s*use'' @ bs ''s+'' @ escaped @ bs ''s*[;(]'', False),
           (''^'' @ bs ''s*use'' @ bs ''s+'' @ escaped @ ''::'', False),
           (''^'' @ bs ''s*require'' @ bs ''s+'' @ escaped @ bs ''s*;'', False),
           (''^'' @ bs ''s*require'' @ bs ''s+'' @ escaped @ ''::'', False)]
      else if lang = ''rust'' then
        compile_all
          [(''^'' @ bs ''s*use'' @ bs ''s+'' @ escaped @ bs ''s*;'', False),
           (''^'' @ bs ''s*use'' @ bs ''s+'' @ escaped @ ''::'', False),
           (''^'' @ bs ''s*use'' @ bs ''s+crate::'' @ escaped, False),
           (''^'' @ bs ''s*use'' @ bs ''s+super::'' @ escaped, False),
           (''^'' @ bs ''s*extern'' @ bs ''s+crate'' @ bs ''s+'' @ escaped @ bs ''s*;'', False),
           (''^'' @ bs ''s*'' @ escaped @ bs ''s*='', False)]
      else Inr [])"

definition get_usage_pattern :: "string \<Rightarrow> string \<Rightarrow> error + pattern option" where
  "get_usage_pattern pkg lang =
     (let escaped = re_escape pkg in
      if lang = ''python'' then map_sum id Some (re_compile (bs ''b'' @ escaped @ bs ''.'') False)
      else if lang = ''csharp'' then map_sum id Some (re_compile (bs ''b'' @ escaped @ bs ''.'') True)
      else if lang = ''perl'' then
        map_sum id Some (re_compile (bs ''b'' @ escaped @ ''(?:::|->)'') False)
      else if lang = ''rust'' then map_sum id Some (re_compile (bs ''b'' @ escaped @ ''::'') False)
      else Inr None)"

text \<open>The pattern of the packageset locator: \<open>"id"\s*:\s*"[^"]*NAME[^"]*"\<close>.\<close>

definition id_pattern :: "string \<Rightarrow> string" where
  "id_pattern pkg =
     [dquote] @ ''id'' @ [dquote] @ bs ''s*:'' @ bs ''s*'' @ [dquote] @ ''[^'' @ [dquote] @ '']*''
       @ re_escape pkg @ ''[^'' @ [dquote] @ '']*'' @ [dquote]"

section \<open>Data model\<close>

text \<open>
  A path is the list of its components; \<open>Path(dirpath) / filename\<close> appends one. Paths
  compare as Python compares them, component by component.
\<close>

type_synonym path = "string list"

record package_match =
  path :: path
  match_type :: string
  line_number :: "nat option"
  line_content :: "string option"

record search_result =
  package_name :: string
  language :: string
  definitions :: "package_match list"
  "imports" :: "package_match list"
  usages :: "package_match list"

definition found :: "search_result \<Rightarrow> bool" where
  "found r = (definitions r \<noteq> [] \<or> imports r \<noteq> [] \<or> usages r \<noteq> [])"

definition SKIP_DIRS :: "string list" where
  "SKIP_DIRS =
     [''.git'', ''.hg'', ''.svn'', ''__pycache__'', ''.pytest_cache'', ''.mypy_cache'',
      ''.ruff_cache'', ''node_modules'', ''.venv'', ''venv'', ''env'', ''.env'', ''.tox'',
      ''build'', ''dist'', ''*.egg-info'', ''.eggs'', ''bin'', ''obj'', ''packages'', ''.vs'',
      ''.idea'']"

text \<open>The registry, in the order the dictionary is written; each entry is a language with
  its extensions and its configuration file names.\<close>

definition LANGUAGE_CONFIG :: "(string \<times> string list \<times> string list) list" where
  "LANGUAGE_CONFIG =
     [(''python'', [''.py'', ''.pyi'', ''.pyx''],
         [''pyproject.toml'', ''setup.py'', ''setup.cfg'', ''requirements.txt'']),
      (''csharp'', [''.cs'', ''.csx''],
         [''*.csproj'', ''*.sln'', ''packages.config'', ''*.nuspec'']),
      (''perl'', [''.pl'', ''.pm'', ''.t'', ''.pod''],
         [''Makefile.PL'', ''Build.PL'', ''cpanfile'', ''META.json'', ''META.yml'']),
      (''rust'', [''.rs''], [''Cargo.toml'', ''Cargo.lock'']),
      (''packageset'', [''.packageset''], [])]"

definition ALL_EXTENSIONS :: "string list" where
  "ALL_EXTENSIONS = concat (map (\<lambda>(lang, exts, cfgs). exts) LANGUAGE_CONFIG)"

definition should_skip_dir :: "string \<Rightarrow> bool" where
  "should_skip_dir dir_name = (dir_name \<in> set SKIP_DIRS \<or> endswith dir_name ''.egg-info'')"

section \<open>File system\<close>

text \<open>
  A file holds its decoded text, or nothing when opening it raises \<open>OSError\<close>; a directory
  lists its entries in the order the operating system reports them. The file system is
  the node at the root; a path is looked up from there.
\<close>

datatype node = File "string option" | Dir "(string \<times> node) list"

fun lookup :: "node \<Rightarrow> path \<Rightarrow> node option"
  and lookup_in :: "(string \<times> node) list \<Rightarrow> string \<Rightarrow> path \<Rightarrow> node option" where
  "lookup n [] = Some n"
| "lookup (File t) (x # xs) = None"
| "lookup (Dir es) (x # xs) = lookup_in es x xs"
| "lookup_in [] x xs = None"
| "lookup_in ((name, n) # es) x xs = (if name = x then lookup n xs else lookup_in es x xs)"

definition exists :: "node \<Rightarrow> path \<Rightarrow> bool" where
  "exists fs p = (lookup fs p \<noteq> None)"

definition is_dir :: "node \<Rightarrow> path \<Rightarrow> bool" where
  "is_dir fs p = (case lookup fs p of Some (Dir es) \<Rightarrow> True | _ \<Rightarrow> False)"

text \<open>\<open>open(filepath, encoding="utf-8", errors="ignore")\<close> and reading: the text, or
  \<open>None\<close> for the \<open>OSError\<close> that the callers swallow.\<close>

definition read_text :: "node \<Rightarrow> path \<Rightarrow> string option" where
  "read_text fs p = (case lookup fs p of Some (File (Some t)) \<Rightarrow> Some t | _ \<Rightarrow> None)"

fun dirnames_of :: "(string \<times> node) list \<Rightarrow> string list" where
  "dirnames_of [] = []"
| "dirnames_of ((name, Dir es) # rest) = name # dirnames_of rest"
| "dirnames_of ((name, File t) # rest) = dirnames_of rest"

fun filenames_of :: "(string \<times> node) list \<Rightarrow> string list" where
  "filenames_of [] = []"
| "filenames_of ((name, Dir es) # rest) = filenames_of rest"
| "filenames_of ((name, File t) # rest) = name # filenames_of rest"

text \<open>
  Every scanning loop of the program has the shape
  \<^verbatim>\<open>for dirpath, dirnames, filenames in os.walk(root):
    dirnames[:] = [d for d in dirnames if not should_skip_dir(d)]\<close>
  \<open>os.walk\<close> yields a directory before its subdirectories and then descends into the
  names left in \<open>dirnames\<close>, so the loop visits exactly the triples that \<open>walk_dir\<close>
  lists: the directory path, the subdirectory names that were kept, the file names.
\<close>

fun walk_dir :: "path \<Rightarrow> (string \<times> node) list \<Rightarrow> (path \<times> string list \<times> string list) list"
  and walk_subs :: "path \<Rightarrow> (string \<times> node) list \<Rightarrow> (path \<times> string list \<times> string list) list" where
  "walk_dir p es =
     (p, filter (\<lambda>d. \<not> should_skip_dir d) (dirnames_of es), filenames_of es) # walk_subs p es"
| "walk_subs p [] = []"
| "walk_subs p ((name, File t) # rest) = walk_subs p rest"
| "walk_subs p ((name, Dir es) # rest) =
     (if should_skip_dir name then [] else walk_dir (p @ [name]) es) @ walk_subs p rest"

definition walk :: "node \<Rightarrow> path \<Rightarrow> (path \<times> string list \<times> string list) list" where
  "walk fs root = (case lookup fs root of Some (Dir es) \<Rightarrow> walk_dir root es | _ \<Rightarrow> [])"

text \<open>\<open>Path(name).suffix\<close>: the text from the last dot on, unless that dot is the first
  or the last character of the name.\<close>

definition path_suffix :: "string \<Rightarrow> string" where
  "path_suffix name =
     (let tail = rev (takeWhile (\<lambda>c. c \<noteq> CHR ''.'') (rev name)) in
      if length tail = length name then []
      else if tail = [] \<or> length name = Suc (length tail) then []
      else CHR ''.'' # tail)"

definition dir_name :: "path \<Rightarrow> string" where
  "dir_name p = (if p = [] then [] else last p)"

section \<open>Collecting source files\<close>

definition extensions_of :: "string \<Rightarrow> string list" where
  "extensions_of lang =
     (case map_of LANGUAGE_CONFIG lang of Some (exts, cfgs) \<Rightarrow> exts | None \<Rightarrow> ALL_EXTENSIONS)"

definition config_files_of :: "string \<Rightarrow> string list" where
  "config_files_of lang =
     (case map_of LANGUAGE_CONFIG lang of
        Some (exts, cfgs) \<Rightarrow> cfgs
      | None \<Rightarrow> concat (map (\<lambda>(l, exts, cfgs). cfgs) LANGUAGE_CONFIG))"

definition source_files_in :: "string \<Rightarrow> bool \<Rightarrow> path \<times> string list \<times> string list \<Rightarrow> path list" where
  "source_files_in lang include_configs triple =
     (case triple of (dirpath, dirnames, filenames) \<Rightarrow>
        concat (map (\<lambda>filename.
                       if path_suffix filename \<in> set (extensions_of lang)
                       then [dirpath @ [filename]]
                       else if include_configs \<and> filename \<in> set (config_files_of lang)
                       then [dirpath @ [filename]]
                       else [])
                  filenames))"

definition iter_source_files :: "node \<Rightarrow> path \<Rightarrow> string \<Rightarrow> bool \<Rightarrow> path list" where
  "iter_source_files fs root lang include_configs =
     concat (map (source_files_in lang include_configs) (walk fs root))"

section \<open>Packageset locator\<close>

text \<open>
  The body of the loop over the \<open>.packageset\<close> files of one directory: the filename check
  first, and only when it fails the file is opened and its content searched. An
  unreadable file gives no match.
\<close>

definition filename_match :: "string \<Rightarrow> string \<Rightarrow> bool" where
  "filename_match filename pkg =
     (let package_lower = lower pkg;
          filename_base = lower (rsplit1_head filename ''.packageset'')
      in filename_base = package_lower \<or> endswith filename_base (''.'' @ package_lower))"

definition count_newlines :: "string \<Rightarrow> nat" where
  "count_newlines s = length (filter (\<lambda>c. c = newline) s)"

definition packageset_content_match :: "path \<Rightarrow> string \<Rightarrow> string \<Rightarrow> error + package_match list" where
  "packageset_content_match filepath pkg content =
     (case re_compile (id_pattern pkg) True of
        Inl e \<Rightarrow> Inl e
      | Inr p \<Rightarrow>
          (case search_start p content of
             Some start \<Rightarrow>
               (let line_num = count_newlines (take start content) + 1 in
                Inr [\<lparr>path = filepath, match_type = ''definition'',
                      line_number = Some line_num,
                      line_content = Some (strip (split_newline content ! (line_num - 1)))\<rparr>])
           | None \<Rightarrow>
               if contains (lower content) (lower pkg)
               then Inr [\<lparr>path = filepath, match_type = ''import'', line_number = None,
                          line_content =
                            Some (''References '' @ [squote] @ pkg @ [squote] @ '' in content'')\<rparr>]
               else Inr []))"

definition packageset_file :: "node \<Rightarrow> path \<Rightarrow> string \<Rightarrow> string \<Rightarrow> error + package_match list" where
  "packageset_file fs dirpath filename pkg =
     (if \<not> endswith filename ''.packageset'' then Inr []
      else if filename_match filename pkg
      then Inr [\<lparr>path = dirpath @ [filename], match_type = ''definition'', line_number = None,
                 line_content = Some (''Filename match: '' @ filename)\<rparr>]
      else (case read_text fs (dirpath @ [filename]) of
              None \<Rightarrow> Inr []
            | Some content \<Rightarrow> packageset_content_match (dirpath @ [filename]) pkg content))"

text \<open>Running a loop body that may raise over a list, appending what each run finds.\<close>

fun collect :: "('a \<Rightarrow> error + 'b list) \<Rightarrow> 'a list \<Rightarrow> error + 'b list" where
  "collect f [] = Inr []"
| "collect f (x # xs) =
     (case f x of
        Inl e \<Rightarrow> Inl e
      | Inr ys \<Rightarrow> (case collect f xs of Inl e \<Rightarrow> Inl e | Inr zs \<Rightarrow> Inr (ys @ zs)))"

definition pkgset_root :: "node \<Rightarrow> path \<Rightarrow> path" where
  "pkgset_root fs root =
     (let canonical_pkgset = root @ [''src'', ''otools'', ''deps'', ''pkgsets'']
      in if is_dir fs canonical_pkgset then canonical_pkgset else root)"

definition find_packageset_definition :: "node \<Rightarrow> path \<Rightarrow> string \<Rightarrow> error + package_match list" where
  "find_packageset_definition fs root pkg =
     collect (\<lambda>(dirpath, dirnames, filenames).
                collect (\<lambda>filename. packageset_file fs dirpath filename pkg) filenames)
       (walk fs (pkgset_root fs root))"

section \<open>Definition locator\<close>

definition python_definitions_in :: "string \<Rightarrow> path \<times> string list \<times> string list \<Rightarrow> package_match list" where
  "python_definitions_in pkg triple =
     (case triple of (dirpath, dirnames, filenames) \<Rightarrow>
        (if dir_name dirpath = pkg \<and> ''__init__.py'' \<in> set filenames
         then [\<lparr>path = dirpath @ [''__init__.py''], match_type = ''definition'',
                 line_number = None, line_content = None\<rparr>]
         else [])
        @ (if pkg @ ''.py'' \<in> set filenames
           then [\<lparr>path = dirpath @ [pkg @ ''.py''], match_type = ''definition'',
                   line_number = None, line_content = None\<rparr>]
           else []))"

text \<open>Lines are numbered from 1; the first pattern that matches a line records it.\<close>

fun definition_lines :: "path \<Rightarrow> pattern list \<Rightarrow> nat \<Rightarrow> string list \<Rightarrow> package_match list" where
  "definition_lines filepath pats n [] = []"
| "definition_lines filepath pats n (line # rest) =
     (if list_ex (\<lambda>p. re_search p line) pats
      then [\<lparr>path = filepath, match_type = ''definition'', line_number = Some n,
              line_content = Some (strip line)\<rparr>]
      else [])
     @ definition_lines filepath pats (Suc n) rest"

definition lexical_definitions_in ::
    "node \<Rightarrow> string \<Rightarrow> pattern list \<Rightarrow> path \<times> string list \<times> string list \<Rightarrow> package_match list" where
  "lexical_definitions_in fs lang pats triple =
     (case triple of (dirpath, dirnames, filenames) \<Rightarrow>
        concat (map (\<lambda>filename.
                       if path_suffix filename \<notin> set (extensions_of lang) then []
                       else (case read_text fs (dirpath @ [filename]) of
                               None \<Rightarrow> []
                             | Some text \<Rightarrow>
                                 definition_lines (dirpath @ [filename]) pats 1 (file_lines text)))
                  filenames))"

definition find_package_definition :: "node \<Rightarrow> path \<Rightarrow> string \<Rightarrow> string \<Rightarrow> error + package_match list" where
  "find_package_definition fs root pkg lang =
     (if lang = ''python'' then Inr (concat (map (python_definitions_in pkg) (walk fs root)))
      else (case get_definition_patterns pkg lang of
              Inl e \<Rightarrow> Inl e
            | Inr pats \<Rightarrow>
                Inr (concat (map (lexical_definitions_in fs lang pats) (walk fs root)))))"

section \<open>Import and usage scanner\<close>

fun scan_lines ::
    "path \<Rightarrow> pattern list \<Rightarrow> pattern option \<Rightarrow> nat \<Rightarrow> string list
      \<Rightarrow> package_match list \<times> package_match list" where
  "scan_lines filepath import_patterns usage_pattern n [] = ([], [])"
| "scan_lines filepath import_patterns usage_pattern n (line # rest) =
     (case scan_lines filepath import_patterns usage_pattern (Suc n) rest of
        (imps, uses) \<Rightarrow>
          if list_ex (\<lambda>p. re_search p line) import_patterns
          then (\<lparr>path = filepath, match_type = ''import'', line_number = Some n,
                  line_content = Some (strip line)\<rparr> # imps, uses)
          else if (case usage_pattern of None \<Rightarrow> False | Some u \<Rightarrow> re_search u line)
          then (imps, \<lparr>path = filepath, match_type = ''usage'', line_number = Some n,
                        line_content = Some (strip line)\<rparr> # uses)
          else (imps, uses))"

definition search_file_for_imports ::
    "node \<Rightarrow> path \<Rightarrow> string \<Rightarrow> string \<Rightarrow> error + (package_match list \<times> package_match list)" where
  "search_file_for_imports fs filepath pkg lang =
     (case get_import_patterns pkg lang of
        Inl e \<Rightarrow> Inl e
      | Inr import_patterns \<Rightarrow>
          (case get_usage_pattern pkg lang of
             Inl e \<Rightarrow> Inl e
           | Inr usage_pattern \<Rightarrow>
               (case read_text fs filepath of
                  None \<Rightarrow> Inr ([], [])
                | Some text \<Rightarrow>
                    Inr (scan_lines filepath import_patterns usage_pattern 1 (file_lines text)))))"

fun search_files_batch ::
    "node \<Rightarrow> path list \<Rightarrow> string \<Rightarrow> string \<Rightarrow> error + (package_match list \<times> package_match list)" where
  "search_files_batch fs [] pkg lang = Inr ([], [])"
| "search_files_batch fs (filepath # rest) pkg lang =
     (case search_file_for_imports fs filepath pkg lang of
        Inl e \<Rightarrow> Inl e
      | Inr (imps, uses) \<Rightarrow>
          (case search_files_batch fs rest pkg lang of
             Inl e \<Rightarrow> Inl e
           | Inr (all_imports, all_usages) \<Rightarrow> Inr (imps @ all_imports, uses @ all_usages)))"

section \<open>Language detection\<close>

definition language_of_file :: "string \<Rightarrow> string option" where
  "language_of_file filename =
     map_option fst
       (find (\<lambda>(lang, exts, cfgs). path_suffix filename \<in> set exts) LANGUAGE_CONFIG)"

definition count_file :: "string \<Rightarrow> (string \<times> nat) list \<Rightarrow> (string \<times> nat) list" where
  "count_file filename counts =
     (case language_of_file filename of
        None \<Rightarrow> counts
      | Some lang \<Rightarrow> map (\<lambda>(l, n). if l = lang then (l, Suc n) else (l, n)) counts)"

text \<open>The census stops after the first directory that brings the total above 1000.\<close>

fun census :: "(string \<times> nat) list \<Rightarrow> (path \<times> string list \<times> string list) list \<Rightarrow> (string \<times> nat) list" where
  "census counts [] = counts"
| "census counts ((dirpath, dirnames, filenames) # rest) =
     (let counts' = fold count_file filenames counts
      in if sum_list (map snd counts') > 1000 then counts' else census counts' rest)"

text \<open>\<open>max(xs, key=f)\<close> keeps the first element whose key is greatest; it starts from
  the first element, and the dictionary of counts always has its five entries.\<close>

fun max_from :: "('a \<Rightarrow> nat) \<Rightarrow> 'a \<Rightarrow> 'a list \<Rightarrow> 'a" where
  "max_from key best [] = best"
| "max_from key best (x # xs) = max_from key (if key best < key x then x else best) xs"

definition initial_counts :: "(string \<times> nat) list" where
  "initial_counts = map (\<lambda>(lang, cfg). (lang, 0)) LANGUAGE_CONFIG"

definition language_counts :: "node \<Rightarrow> path \<Rightarrow> (string \<times> nat) list" where
  "language_counts fs root = census initial_counts (walk fs root)"

definition detect_language :: "node \<Rightarrow> path \<Rightarrow> string" where
  "detect_language fs root =
     (let counts = language_counts fs root in
      if max_from id (hd (map snd counts)) (tl (map snd counts)) = 0 then ''csharp''
      else fst (max_from snd (hd counts) (tl counts)))"

section \<open>Batches and aggregation\<close>

text \<open>
  \<open>[all_files[i : i + batch_size] for i in range(0, len(all_files), batch_size)]\<close>:
  \<open>range\<close> raises \<open>ValueError\<close> for a step of zero and is empty for a negative step.
\<close>

function chunks :: "nat \<Rightarrow> 'a list \<Rightarrow> 'a list list" where
  "chunks n xs = (if n = 0 \<or> xs = [] then [] else take n xs # chunks n (drop n xs))"
  by pat_completeness auto
termination
  by (relation "measure (\<lambda>(n, xs). length xs)") auto

declare chunks.simps [simp del]

definition make_batches :: "int \<Rightarrow> 'a list \<Rightarrow> error + 'a list list" where
  "make_batches batch_size all_files =
     (if batch_size = 0 then Inl ValueError
      else if batch_size < 0 then Inr []
      else Inr (chunks (nat batch_size) all_files))"

fun batch_results ::
    "node \<Rightarrow> path list list \<Rightarrow> string \<Rightarrow> string
      \<Rightarrow> error + (package_match list \<times> package_match list) list" where
  "batch_results fs [] pkg lang = Inr []"
| "batch_results fs (batch # rest) pkg lang =
     (case search_files_batch fs batch pkg lang of
        Inl e \<Rightarrow> Inl e
      | Inr r \<Rightarrow>
          (case batch_results fs rest pkg lang of Inl e \<Rightarrow> Inl e | Inr rs \<Rightarrow> Inr (r # rs)))"

definition sort_key_of :: "package_match \<Rightarrow> path \<times> nat" where
  "sort_key_of m = (path m, (case line_number m of None \<Rightarrow> 0 | Some n \<Rightarrow> n))"

text \<open>
  \<open>find_package\<close>. The worker pool hands the batch results back in the order in which
  the workers finish; \<open>arrive\<close> is that reordering of the results. Creating a pool with a
  worker count of zero or less raises \<open>ValueError\<close>. \<open>list.sort\<close> is stable, as
  \<^const>\<open>sort_key\<close> is.
\<close>

definition find_package ::
    "node \<Rightarrow> path \<Rightarrow> string \<Rightarrow> string \<Rightarrow> int option \<Rightarrow> int \<Rightarrow> bool
      \<Rightarrow> ((package_match list \<times> package_match list) list
           \<Rightarrow> (package_match list \<times> package_match list) list)
      \<Rightarrow> error + search_result" where
  "find_package fs root pkg lang max_workers batch_size search_packagesets arrive =
     (case (if search_packagesets then find_packageset_definition fs root pkg else Inr []) of
        Inl e \<Rightarrow> Inl e
      | Inr packageset_matches \<Rightarrow>
     (let lang' = (if lang = ''auto'' then detect_language fs root else lang) in
      case find_package_definition fs root pkg lang' of
        Inl e \<Rightarrow> Inl e
      | Inr source_definitions \<Rightarrow>
     (let all_files = iter_source_files fs root lang' True in
      case make_batches batch_size all_files of
        Inl e \<Rightarrow> Inl e
      | Inr batches \<Rightarrow>
     (let parallel = (length batches > 1 \<and> max_workers \<noteq> Some 1) in
      if parallel \<and> (case max_workers of None \<Rightarrow> False | Some w \<Rightarrow> w \<le> 0) then Inl ValueError
      else
     (case batch_results fs batches pkg lang' of
        Inl e \<Rightarrow> Inl e
      | Inr results \<Rightarrow>
     (let ordered = (if parallel then arrive results else results) in
      Inr \<lparr>package_name = pkg, language = lang',
           definitions =
             filter (\<lambda>m. match_type m = ''definition'') packageset_matches @ source_definitions,
           imports =
             sort_key sort_key_of
               (filter (\<lambda>m. match_type m \<noteq> ''definition'') packageset_matches
                @ concat (map fst ordered)),
           usages = sort_key sort_key_of (concat (map snd ordered))\<rparr>))))))"

section \<open>Formatting and the command line\<close>

text \<open>\<open>xs[:k]\<close> for any integer \<open>k\<close>, and \<open>path.relative_to(root)\<close>, which raises
  \<open>ValueError\<close> when \<open>root\<close> is not a prefix of the path.\<close>

definition py_take :: "int \<Rightarrow> 'a list \<Rightarrow> 'a list" where
  "py_take k xs = (if 0 \<le> k then take (nat k) xs else take (length xs - nat (- k)) xs)"

definition relative_to :: "path \<Rightarrow> path \<Rightarrow> error + path" where
  "relative_to p root =
     (if take (length root) p = root then Inr (drop (length root) p) else Inl ValueError)"

definition str_rel :: "path \<Rightarrow> string" where
  "str_rel p = (if p = [] then ''.'' else join ''/'' p)"

definition str_path :: "path \<Rightarrow> string" where
  "str_path p = ''/'' @ join ''/'' p"

definition str_line_number :: "nat option \<Rightarrow> string" where
  "str_line_number n = (case n of None \<Rightarrow> ''None'' | Some k \<Rightarrow> str_nat k)"

text \<open>The headings carry an icon each; its text is given here as UTF-8 bytes.\<close>

definition icon_definitions :: string where
  "icon_definitions = [CHR 0xC3, CHR 0xB0, CHR 0xC5, CHR 0xB8, CHR 0xE2, CHR 0x80, CHR 0x9C, CHR 0xC2, CHR 0xA6]"

definition icon_imports :: string where
  "icon_imports = [CHR 0xC3, CHR 0xB0, CHR 0xC5, CHR 0xB8, CHR 0xE2, CHR 0x80, CHR 0x9C, CHR 0xC2, CHR 0xA5]"

definition icon_usages :: string where
  "icon_usages = [CHR 0xC3, CHR 0xB0, CHR 0xC5, CHR 0xB8, CHR 0xE2, CHR 0x80, CHR 0x9D, CHR 0xE2, CHR 0x80, CHR 0x94]"

definition definition_line :: "path \<Rightarrow> package_match \<Rightarrow> error + string list" where
  "definition_line root m =
     (case relative_to (path m) root of
        Inl e \<Rightarrow> Inl e
      | Inr rel_path \<Rightarrow> Inr [''  '' @ str_rel rel_path])"

definition match_lines :: "path \<Rightarrow> package_match \<Rightarrow> error + string list" where
  "match_lines root m =
     (case relative_to (path m) root of
        Inl e \<Rightarrow> Inl e
      | Inr rel_path \<Rightarrow>
          Inr ([''  '' @ str_rel rel_path @ '':'' @ str_line_number (line_number m)]
               @ (case line_content m of
                    None \<Rightarrow> []
                  | Some c \<Rightarrow> if c = [] then [] else [''    '' @ c])))"

definition more_line :: "nat \<Rightarrow> int \<Rightarrow> string list" where
  "more_line n max_items =
     (if int n > max_items
      then [''  ... and '' @ str_int (int n - max_items) @ '' more'']
      else [])"

definition definitions_block :: "search_result \<Rightarrow> path \<Rightarrow> int \<Rightarrow> error + string list" where
  "definitions_block result root max_items =
     (if definitions result = [] then Inr []
      else (case collect (definition_line root) (py_take max_items (definitions result)) of
              Inl e \<Rightarrow> Inl e
            | Inr shown \<Rightarrow>
                Inr ([[newline] @ icon_definitions @ '' Package Definitions (''
                        @ str_nat (length (definitions result)) @ ''):'',
                      replicate 40 (CHR ''-'')]
                     @ shown)))"

definition imports_block :: "search_result \<Rightarrow> path \<Rightarrow> int \<Rightarrow> error + string list" where
  "imports_block result root max_items =
     (if imports result = [] then Inr []
      else (case collect (match_lines root) (py_take max_items (imports result)) of
              Inl e \<Rightarrow> Inl e
            | Inr shown \<Rightarrow>
                Inr ([[newline] @ icon_imports @ '' Imports (''
                        @ str_nat (length (imports result)) @ ''):'',
                      replicate 40 (CHR ''-'')]
                     @ shown @ more_line (length (imports result)) max_items)))"

definition usages_block :: "search_result \<Rightarrow> path \<Rightarrow> int \<Rightarrow> error + string list" where
  "usages_block result root max_items =
     (if usages result = [] then Inr []
      else (case collect (match_lines root) (py_take max_items (usages result)) of
              Inl e \<Rightarrow> Inl e
            | Inr shown \<Rightarrow>
                Inr ([[newline] @ icon_usages @ '' Usages (''
                        @ str_nat (length (usages result)) @ ''):'',
                      replicate 40 (CHR ''-'')]
                     @ shown @ more_line (length (usages result)) max_items)))"

definition summary_lines :: "search_result \<Rightarrow> string list" where
  "summary_lines result =
     [[newline] @ replicate 60 (CHR ''=''),
      ''Summary:'',
      ''  Definitions: '' @ str_nat (length (definitions result)),
      ''  Import statements: '' @ str_nat (length (imports result)),
      ''  Usage locations: '' @ str_nat (length (usages result))]"

definition header_lines :: "search_result \<Rightarrow> string list" where
  "header_lines result =
     [''Search Results for: '' @ package_name result @ '' ('' @ language result @ '')'',
      replicate 60 (CHR ''='')]"

text \<open>\<open>format_results\<close> as the list of its lines; the program joins them with line ends.\<close>

definition format_lines :: "search_result \<Rightarrow> path \<Rightarrow> int \<Rightarrow> error + string list" where
  "format_lines result root max_items =
     (if \<not> found result then Inr (header_lines result @ [''No matches found.''])
      else (case definitions_block result root max_items of
              Inl e \<Rightarrow> Inl e
            | Inr ds \<Rightarrow>
          (case imports_block result root max_items of
              Inl e \<Rightarrow> Inl e
            | Inr ims \<Rightarrow>
          (case usages_block result root max_items of
              Inl e \<Rightarrow> Inl e
            | Inr us \<Rightarrow> Inr (header_lines result @ ds @ ims @ us @ summary_lines result)))))"

definition format_results :: "search_result \<Rightarrow> path \<Rightarrow> int \<Rightarrow> error + string" where
  "format_results result root max_items =
     (case format_lines result root max_items of
        Inl e \<Rightarrow> Inl e
      | Inr ls \<Rightarrow> Inr (join [newline] ls))"

text \<open>
  The parsed command line, and what \<open>main\<close> does with it: what it prints and the exit
  status. An exception that nothing catches ends the process with a traceback and
  status 1.
\<close>

record args =
  arg_package_name :: string
  arg_root :: path
  arg_lang :: string
  arg_max_results :: int
  arg_workers :: "int option"
  arg_json :: bool
  arg_no_packagesets :: bool

datatype printed = Stderr string | Stdout string | StdoutJson search_result | Traceback error

definition main ::
    "node \<Rightarrow> args
      \<Rightarrow> ((package_match list \<times> package_match list) list
           \<Rightarrow> (package_match list \<times> package_match list) list)
      \<Rightarrow> printed \<times> nat" where
  "main fs a arrive =
     (if \<not> exists fs (arg_root a)
      then (Stderr (''Error: Path does not exist: '' @ str_path (arg_root a)), 1)
      else if \<not> is_dir fs (arg_root a)
      then (Stderr (''Error: Path is not a directory: '' @ str_path (arg_root a)), 1)
      else (case find_package fs (arg_root a) (arg_package_name a) (arg_lang a) (arg_workers a)
                   100 (\<not> arg_no_packagesets a) arrive of
              Inl e \<Rightarrow> (Traceback e, 1)
            | Inr result \<Rightarrow>
                if arg_json a then (StdoutJson result, if found result then 0 else 1)
                else (case format_results result (arg_root a) (arg_max_results a) of
                        Inl e \<Rightarrow> (Traceback e, 1)
                      | Inr text \<Rightarrow> (Stdout text, if found result then 0 else 1))))"

section \<open>Vocabulary of the properties\<close>

text \<open>What the scanner's two tests on a line are, and the match it records for a
  numbered line.\<close>

definition is_import_line :: "pattern list \<Rightarrow> string \<Rightarrow> bool" where
  "is_import_line import_patterns line = list_ex (\<lambda>p. re_search p line) import_patterns"

definition is_usage_line :: "pattern option \<Rightarrow> string \<Rightarrow> bool" where
  "is_usage_line usage_pattern line =
     (case usage_pattern of None \<Rightarrow> False | Some u \<Rightarrow> re_search u line)"

definition line_match :: "path \<Rightarrow> string \<Rightarrow> nat \<times> string \<Rightarrow> package_match" where
  "line_match filepath kind nl =
     \<lparr>path = filepath, match_type = kind, line_number = Some (fst nl),
      line_content = Some (strip (snd nl))\<rparr>"

text \<open>The values that the command line accepts for \<open>--lang\<close>.\<close>

definition lang_choices :: "string list" where
  "lang_choices = [''auto'', ''python'', ''csharp'', ''perl'', ''rust'']"

subsection \<open>Example inputs\<close>

definition packageset_tree :: node where
  "packageset_tree =
     Dir [(''repo'', Dir [(''office.widgets.packageset'', File (Some ''import widgets''))])]"

definition both_line :: string where
  "both_line = ''import os, os.path'' @ [newline]"

definition both_tree :: node where
  "both_tree = Dir [(''main.py'', File (Some both_line))]"

text \<open>A path below \<open>root\<close> none of whose directories between \<open>root\<close> and the last
  component is on the denylist.\<close>

definition dirs_below :: "path \<Rightarrow> path \<Rightarrow> string list" where
  "dirs_below root p = butlast (drop (length root) p)"

definition under_kept_dirs :: "path \<Rightarrow> path \<Rightarrow> bool" where
  "under_kept_dirs root p =
     (take (length root) p = root \<and> length root < length p
      \<and> list_all (\<lambda>d. \<not> should_skip_dir d) (dirs_below root p))"

text \<open>The triple that a loop sees for a directory with the given entries.\<close>

definition triple_of :: "path \<Rightarrow> (string \<times> node) list \<Rightarrow> path \<times> string list \<times> string list" where
  "triple_of dirpath es =
     (dirpath, filter (\<lambda>d. \<not> should_skip_dir d) (dirnames_of es), filenames_of es)"

text \<open>The order in which batch results arrive is some reordering of them.\<close>

definition reorders :: "('a list \<Rightarrow> 'a list) \<Rightarrow> bool" where
  "reorders f = (\<forall>xs. mset (f xs) = mset xs)"

text \<open>What the scanner finds in one file, given the compiled patterns.\<close>

definition scan_file ::
    "node \<Rightarrow> pattern list \<Rightarrow> pattern option \<Rightarrow> path \<Rightarrow> package_match list \<times> package_match list" where
  "scan_file fs ips up filepath =
     (case read_text fs filepath of
        None \<Rightarrow> ([], [])
      | Some text \<Rightarrow> scan_lines filepath ips up 1 (file_lines text))"

definition scan_files ::
    "node \<Rightarrow> pattern list \<Rightarrow> pattern option \<Rightarrow> path list \<Rightarrow> package_match list \<times> package_match list" where
  "scan_files fs ips up files =
     (concat (map (\<lambda>f. fst (scan_file fs ips up f)) files),
      concat (map (\<lambda>f. snd (scan_file fs ips up f)) files))"

text \<open>The language that \<open>find_package\<close> works with, and the result it builds from the
  packageset matches, the source definitions and the batch results in the order taken.\<close>

definition resolve_language :: "node \<Rightarrow> path \<Rightarrow> string \<Rightarrow> string" where
  "resolve_language fs root lang = (if lang = ''auto'' then detect_language fs root else lang)"

definition aggregate ::
    "string \<Rightarrow> string \<Rightarrow> package_match list \<Rightarrow> package_match list
      \<Rightarrow> (package_match list \<times> package_match list) list \<Rightarrow> search_result" where
  "aggregate pkg lang' packageset_matches source_definitions ordered =
     \<lparr>package_name = pkg, language = lang',
      definitions =
        filter (\<lambda>m. match_type m = ''definition'') packageset_matches @ source_definitions,
      imports =
        sort_key sort_key_of
          (filter (\<lambda>m. match_type m \<noteq> ''definition'') packageset_matches
           @ concat (map fst ordered)),
      usages = sort_key sort_key_of (concat (map snd ordered))\<rparr>"

definition pool_ok :: "int option \<Rightarrow> bool" where
  "pool_ok max_workers = (case max_workers of None \<Rightarrow> True | Some w \<Rightarrow> 0 < w)"

definition skip_tree :: node where
  "skip_tree =
     Dir [(''repo'', Dir [(''build'', Dir [(''w.py'', File (Some ''''))]),
                          (''w.py'', File (Some ''''))])]"

text \<open>The matches of the two locators that carry no line number.\<close>

definition filename_definition :: "path \<Rightarrow> string \<Rightarrow> package_match" where
  "filename_definition dirpath filename =
     \<lparr>path = dirpath @ [filename], match_type = ''definition'', line_number = None,
      line_content = Some (''Filename match: '' @ filename)\<rparr>"

definition marker_match :: "path \<Rightarrow> package_match" where
  "marker_match dirpath =
     \<lparr>path = dirpath @ [''__init__.py''], match_type = ''definition'', line_number = None,
      line_content = None\<rparr>"

definition module_match :: "string \<Rightarrow> path \<Rightarrow> package_match" where
  "module_match pkg dirpath =
     \<lparr>path = dirpath @ [pkg @ ''.py''], match_type = ''definition'', line_number = None,
      line_content = None\<rparr>"

text \<open>The file name without its \<open>.packageset\<close> extension, in lower case.\<close>

definition packageset_stem :: "string \<Rightarrow> string" where
  "packageset_stem filename =
     lower (take (length filename - length ''.packageset'') filename)"

definition opmlite_tree :: node where
  "opmlite_tree =
     Dir [(''pkgsets'', Dir [(''office.engineering.opmlite.packageset'', File None),
                             (''opmlite.packageset'', File (Some ''{}''))])]"

definition widgets_tree :: node where
  "widgets_tree =
     Dir [(''src'', Dir [(''widgets'', Dir [(''__init__.py'', File (Some ''''))]),
                         (''widgets.py'', File (Some ''''))])]"

text \<open>The file names that the census has counted when it stops: those of the
  directories visited up to and including the one that brings the total above 1000.\<close>

fun counted_files :: "(string \<times> nat) list \<Rightarrow> (path \<times> string list \<times> string list) list \<Rightarrow> string list" where
  "counted_files counts [] = []"
| "counted_files counts ((dirpath, dirnames, filenames) # rest) =
     filenames @
       (if sum_list (map snd (fold count_file filenames counts)) > 1000 then []
        else counted_files (fold count_file filenames counts) rest)"

definition files_of_language :: "string \<Rightarrow> string list \<Rightarrow> nat" where
  "files_of_language lang filenames =
     length (filter (\<lambda>f. language_of_file f = Some lang) filenames)"

definition tie_tree :: node where
  "tie_tree = Dir [(''repo'', Dir [(''a.cs'', File (Some '''')), (''b.py'', File (Some ''''))])]"

definition empty_tree :: node where
  "empty_tree = Dir [(''repo'', Dir [])]"

definition three_files :: node where
  "three_files =
     Dir [(''repo'', Dir [(''c.py'', File (Some both_line)),
                          (''a.py'', File (Some both_line)),
                          (''b.py'', File (Some both_line))])]"

text \<open>A result with two definitions and two imports, for a display limit of one.\<close>

definition two_of_each :: search_result where
  "two_of_each =
     \<lparr>package_name = ''w'', language = ''python'',
      definitions = [module_match ''w'' [''repo''], marker_match [''repo'', ''w'']],
      imports = [line_match [''repo'', ''a.py''] ''import'' (1, ''import w''),
                 line_match [''repo'', ''b.py''] ''import'' (2, ''import w'')],
      usages = []\<rparr>"

text \<open>Command lines for the tree with the package \<open>widgets\<close>: a search that finds it,
  one that finds nothing, and one whose root does not exist.\<close>

definition widgets_args :: args where
  "widgets_args =
     \<lparr>arg_package_name = ''widgets'', arg_root = [''src''], arg_lang = ''python'',
      arg_max_results = 50, arg_workers = None, arg_json = False,
      arg_no_packagesets = False\<rparr>"

definition nothing_args :: args where
  "nothing_args = widgets_args\<lparr>arg_package_name := ''gadgets''\<rparr>"

definition missing_args :: args where
  "missing_args = widgets_args\<lparr>arg_root := [''elsewhere'']\<rparr>"

section \<open>Properties of the pattern compiler\<close>

lemma special_escapes_all:
  "list_all (\<lambda>c. esc_step c = Inr ([TLit c], LNormal)) special_chars"
  by (simp add: special_chars_def esc_step_def class_escape_def other_escape_def
      control_escape_def is_digit_def is_ascii_letter_def code_def)

lemma special_is_literal_after_backslash:
  "c \<in> set special_chars \<Longrightarrow> esc_step c = Inr ([TLit c], LNormal)"
  using special_escapes_all by (simp add: list_all_iff)

lemma plain_is_literal:
  "c \<notin> set special_chars \<Longrightarrow> normal_step c = Inr ([TLit c], LNormal)"
  by (simp add: special_chars_def normal_step_def)

lemma lex_go_escape_char:
  "lex_go LNormal (escape_char c @ rest) =
     (case lex_go LNormal rest of Inl e \<Rightarrow> Inl e | Inr ts \<Rightarrow> Inr (TLit c # ts))"
proof (cases "c \<in> set special_chars")
  case True
  then show ?thesis
    by (simp add: escape_char_def normal_step_def special_is_literal_after_backslash
        split: sum.splits)
next
  case False
  then show ?thesis
    by (simp add: escape_char_def plain_is_literal split: sum.splits)
qed

lemma lex_go_escape:
  "lex_go LNormal (re_escape P @ rest) =
     (case lex_go LNormal rest of Inl e \<Rightarrow> Inl e | Inr ts \<Rightarrow> Inr (map TLit P @ ts))"
proof (induction P)
  case Nil
  show ?case by (simp add: re_escape_def split: sum.splits)
next
  case (Cons c P)
  have "re_escape (c # P) @ rest = escape_char c @ (re_escape P @ rest)"
    by (simp add: re_escape_def)
  then show ?case
    by (simp add: lex_go_escape_char Cons.IH split: sum.splits)
qed

lemma lex_go_escape_end:
  "lex_go LNormal (re_escape P) = Inr (map TLit P)"
  using lex_go_escape [of P "[]"] by simp

lemma parse_go_lits:
  "parse_go ((alts, cur), stack, rep) (map TLit P @ ts) =
     parse_go ((alts, cur @ map Lit P), stack, rep \<and> P = []) ts"
proof (induction P arbitrary: cur rep)
  case Nil
  show ?case by simp
next
  case (Cons c P)
  show ?case by (simp add: push_item_def Cons.IH)
qed

lemma parse_go_lits_end:
  "parse_go ((alts, cur), stack, rep) (map TLit P) =
     Inr ((alts, cur @ map Lit P), stack, rep \<and> P = [])"
  using parse_go_lits [of alts cur stack rep P "[]"] by simp

lemmas eval_compile =
  re_compile_def lex_def normal_step_def esc_step_def class_escape_def other_escape_def
  control_escape_def set_step_def set_esc_step_def parse_def push_item_def repeat_step_def
  apply_repeat_def lex_go_escape parse_go_lits lex_go_escape_end parse_go_lits_end
  is_digit_def is_ascii_letter_def code_def

lemma get_definition_patterns_total:
  "\<exists>ps. get_definition_patterns pkg lang = Inr ps"
  by (simp add: get_definition_patterns_def Let_def eval_compile)

lemma get_import_patterns_total:
  "\<exists>ps. get_import_patterns pkg lang = Inr ps"
  by (simp add: get_import_patterns_def Let_def eval_compile)

lemma get_usage_pattern_total:
  "\<exists>u. get_usage_pattern pkg lang = Inr u"
  by (simp add: get_usage_pattern_def Let_def eval_compile)

lemma id_pattern_total:
  "\<exists>p. re_compile (id_pattern pkg) True = Inr p"
  by (simp add: id_pattern_def eval_compile)

lemma compile_escaped:
  "re_compile (re_escape pkg) icase = Inr \<lparr>expr = seq_of (map Lit pkg), ignorecase = icase\<rparr>"
  by (simp add: eval_compile)

text \<open>The expression that an escaped name compiles to matches the name itself and
  nothing else: a search with it succeeds exactly on the texts that contain the name.\<close>

lemma match_literal:
  "i \<le> length s \<Longrightarrow> re_match False s (seq_of (map Lit P)) i =
     (if take (length P) (drop i s) = P then [i + length P] else [])"
proof (induction P arbitrary: i)
  case Nil
  show ?case by simp
next
  case (Cons c P)
  show ?case
  proof (cases "i < length s \<and> s ! i = c")
    case True
    then have d: "drop i s = c # drop (Suc i) s"
      using Cons_nth_drop_Suc [of i s] by simp
    from True have "Suc i \<le> length s" by simp
    from Cons.IH [OF this] True show ?thesis
      by (simp add: one_char_def char_eq_def d)
  next
    case False
    have "take (length (c # P)) (drop i s) \<noteq> c # P"
    proof (cases "i < length s")
      case True
      with False have "s ! i \<noteq> c" by simp
      moreover from True have "drop i s = s ! i # drop (Suc i) s"
        using Cons_nth_drop_Suc [of i s] by simp
      ultimately show ?thesis by simp
    next
      case False
      then show ?thesis by simp
    qed
    with False show ?thesis
      by (auto simp: one_char_def char_eq_def)
  qed
qed

lemma contains_iff:
  "contains s p \<longleftrightarrow> (\<exists>i\<le>length s. take (length p) (drop i s) = p)"
proof (induction s)
  case Nil
  show ?case by auto
next
  case (Cons c cs)
  have "(\<exists>i\<le>length (c # cs). take (length p) (drop i (c # cs)) = p)
        \<longleftrightarrow> take (length p) (c # cs) = p \<or> (\<exists>j\<le>length cs. take (length p) (drop j cs) = p)"
    (is "?L \<longleftrightarrow> ?R")
  proof
    assume ?L
    then obtain i where i: "i \<le> length (c # cs)" "take (length p) (drop i (c # cs)) = p"
      by blast
    show ?R
    proof (cases i)
      case 0
      with i show ?thesis by simp
    next
      case (Suc j)
      with i show ?thesis by auto
    qed
  next
    assume ?R
    then show ?L
    proof
      assume "take (length p) (c # cs) = p"
      then have "take (length p) (drop 0 (c # cs)) = p" by simp
      then show ?L by blast
    next
      assume "\<exists>j\<le>length cs. take (length p) (drop j cs) = p"
      then obtain j where "j \<le> length cs" "take (length p) (drop j cs) = p" by blast
      then have "Suc j \<le> length (c # cs)" "take (length p) (drop (Suc j) (c # cs)) = p"
        by simp_all
      then show ?L by blast
    qed
  qed
  with Cons.IH show ?case by (simp add: startswith_def)
qed

lemma search_literal:
  "re_search \<lparr>expr = seq_of (map Lit P), ignorecase = False\<rparr> s \<longleftrightarrow> contains s P"
proof -
  have "re_search \<lparr>expr = seq_of (map Lit P), ignorecase = False\<rparr> s
        \<longleftrightarrow> (\<exists>i\<in>set [0..<Suc (length s)]. re_match False s (seq_of (map Lit P)) i \<noteq> [])"
    by (auto simp: re_search_def search_start_def find_None_iff simp del: upt_Suc)
  also have "\<dots> \<longleftrightarrow> (\<exists>i\<le>length s. take (length P) (drop i s) = P)"
    by (auto simp: match_literal less_Suc_eq_le simp del: upt_Suc)
  finally show ?thesis by (simp add: contains_iff)
qed

text \<open>
  Claim C3. For every package name and every language, compiling the definition
  patterns, the import patterns and the usage pattern never raises: each returns its
  patterns. The reason is the escaping: the escaped name scans to one literal token per
  character of the name, it compiles to the sequence of those literals, and a search
  with that sequence succeeds exactly on the texts that contain the name itself.
\<close>

theorem pattern_compilation_never_raises:
  "(\<exists>ds. get_definition_patterns pkg lang = Inr ds)
   \<and> (\<exists>ips. get_import_patterns pkg lang = Inr ips)
   \<and> (\<exists>u. get_usage_pattern pkg lang = Inr u)
   \<and> lex (re_escape pkg) = Inr (map TLit pkg)
   \<and> re_compile (re_escape pkg) False
       = Inr \<lparr>expr = seq_of (map Lit pkg), ignorecase = False\<rparr>
   \<and> re_search \<lparr>expr = seq_of (map Lit pkg), ignorecase = False\<rparr> s = contains s pkg"
  using get_definition_patterns_total [of pkg lang] get_import_patterns_total [of pkg lang]
    get_usage_pattern_total [of pkg lang] compile_escaped [of pkg False]
    search_literal [of pkg s] lex_go_escape_end [of pkg]
  by (simp add: lex_def)

text \<open>Without the escaping the same templates do raise: a name that is an opening
  parenthesis leaves a group unclosed.\<close>

lemma unescaped_name_raises:
  "re_compile (bs ''b'' @ ''('' @ bs ''.'') False = Inl MissingParenthesis"
  by (simp add: eval_compile)

section \<open>Properties of the import and usage scanner\<close>

lemma scan_lines_enumerate:
  "scan_lines filepath ips up n ls =
     (map (line_match filepath ''import'') (filter (\<lambda>(k, l). is_import_line ips l) (enumerate n ls)),
      map (line_match filepath ''usage'')
        (filter (\<lambda>(k, l). \<not> is_import_line ips l \<and> is_usage_line up l) (enumerate n ls)))"
  by (induction ls arbitrary: n)
     (simp_all add: is_import_line_def is_usage_line_def line_match_def)

lemma search_file_for_imports_eq:
  assumes "get_import_patterns pkg lang = Inr ips" and "get_usage_pattern pkg lang = Inr up"
  shows "search_file_for_imports fs filepath pkg lang =
     Inr (case read_text fs filepath of
            None \<Rightarrow> ([], [])
          | Some text \<Rightarrow> scan_lines filepath ips up 1 (file_lines text))"
  using assms by (simp add: search_file_for_imports_def split: option.splits)

text \<open>
  Claim C1. For every file, package name and language: the scanner's import list holds
  the lines that some import pattern matches and its usage list the lines that no import
  pattern matches and the usage pattern does, so a line that an import pattern matches
  is in the import list and never in the usage list, whatever the usage pattern says
  about it.
\<close>

theorem import_line_is_never_a_usage:
  assumes "get_import_patterns pkg lang = Inr ips"
      and "get_usage_pattern pkg lang = Inr up"
      and "read_text fs filepath = Some text"
  shows "\<exists>imps uses.
       search_file_for_imports fs filepath pkg lang = Inr (imps, uses)
     \<and> imps = map (line_match filepath ''import'')
                (filter (\<lambda>(n, line). is_import_line ips line) (enumerate 1 (file_lines text)))
     \<and> uses = map (line_match filepath ''usage'')
                (filter (\<lambda>(n, line). \<not> is_import_line ips line \<and> is_usage_line up line)
                   (enumerate 1 (file_lines text)))
     \<and> (\<forall>(n, line) \<in> set (enumerate 1 (file_lines text)).
           is_import_line ips line \<longrightarrow>
             Some n \<in> line_number ` set imps \<and> Some n \<notin> line_number ` set uses)"
proof -
  let ?ls = "enumerate 1 (file_lines text)"
  let ?imps = "map (line_match filepath ''import'') (filter (\<lambda>(n, line). is_import_line ips line) ?ls)"
  let ?uses = "map (line_match filepath ''usage'')
     (filter (\<lambda>(n, line). \<not> is_import_line ips line \<and> is_usage_line up line) ?ls)"
  have run: "search_file_for_imports fs filepath pkg lang = Inr (?imps, ?uses)"
    using assms by (simp add: search_file_for_imports_eq scan_lines_enumerate)
  have "Some n \<in> line_number ` set ?imps \<and> Some n \<notin> line_number ` set ?uses"
    if "(n, line) \<in> set ?ls" "is_import_line ips line" for n line
  proof
    from that show "Some n \<in> line_number ` set ?imps"
      by (force simp: line_match_def image_iff)
    show "Some n \<notin> line_number ` set ?uses"
    proof
      assume "Some n \<in> line_number ` set ?uses"
      then obtain l' where l': "(n, l') \<in> set ?ls" "\<not> is_import_line ips l'"
        by (auto simp: line_match_def)
      have "distinct (map fst ?ls)" by (simp add: enumerate_eq_zip)
      with that(1) l'(1) have "l' = line"
        by (meson eq_key_imp_eq_value)
      with l'(2) that(2) show False by simp
    qed
  qed
  with run show ?thesis by blast
qed

lemma re_search_at:
  assumes "i \<le> length s" and "re_match (ignorecase p) s (expr p) i \<noteq> []"
  shows "re_search p s"
proof -
  from assms(1) have "i \<in> set [0..<Suc (length s)]" by (simp del: upt_Suc)
  with assms(2) show ?thesis
    unfolding re_search_def search_start_def find_None_iff by blast
qed

lemma both_line_is_import:
  "\<exists>ips. get_import_patterns ''os'' ''python'' = Inr ips \<and> is_import_line ips both_line"
proof -
  have "(case get_import_patterns ''os'' ''python'' of
           Inr (p # ps) \<Rightarrow> re_match (ignorecase p) both_line (expr p) 0 \<noteq> []
         | _ \<Rightarrow> False)"
    by code_simp
  then obtain p ps where ips: "get_import_patterns ''os'' ''python'' = Inr (p # ps)"
    and p: "re_match (ignorecase p) both_line (expr p) 0 \<noteq> []"
    by (auto split: sum.splits list.splits)
  from p have "is_import_line (p # ps) both_line"
    using re_search_at [of 0 both_line p] by (simp add: is_import_line_def)
  with ips show ?thesis by blast
qed

lemma both_line_is_usage:
  "\<exists>up. get_usage_pattern ''os'' ''python'' = Inr up \<and> is_usage_line up both_line"
proof -
  have "(case get_usage_pattern ''os'' ''python'' of
           Inr (Some u) \<Rightarrow> re_match (ignorecase u) both_line (expr u) 11 \<noteq> []
         | _ \<Rightarrow> False)"
    by code_simp
  then obtain u where up: "get_usage_pattern ''os'' ''python'' = Inr (Some u)"
    and u: "re_match (ignorecase u) both_line (expr u) 11 \<noteq> []"
    by (auto split: sum.splits option.splits)
  have len: "length both_line = 19"
    by (simp add: both_line_def)
  from u len have "is_usage_line (Some u) both_line"
    using re_search_at [of 11 both_line u] by (simp add: is_usage_line_def)
  with up show ?thesis by blast
qed

lemma file_lines_both_line: "file_lines both_line = [both_line]"
  by (simp add: file_lines_def both_line_def)

theorem import_line_is_never_a_usage_witness:
  "\<exists>ips up imps uses.
       get_import_patterns ''os'' ''python'' = Inr ips
     \<and> get_usage_pattern ''os'' ''python'' = Inr up
     \<and> read_text both_tree [''main.py''] = Some both_line
     \<and> is_import_line ips both_line \<and> is_usage_line up both_line
     \<and> search_file_for_imports both_tree [''main.py''] ''os'' ''python'' = Inr (imps, uses)
     \<and> Some 1 \<in> line_number ` set imps \<and> Some 1 \<notin> line_number ` set uses"
proof -
  from both_line_is_import obtain ips where
    ips: "get_import_patterns ''os'' ''python'' = Inr ips" and imp: "is_import_line ips both_line"
    by blast
  from both_line_is_usage obtain up where
    up: "get_usage_pattern ''os'' ''python'' = Inr up" and use: "is_usage_line up both_line"
    by blast
  have rd: "read_text both_tree [''main.py''] = Some both_line"
    by (simp add: read_text_def both_tree_def)
  have mem: "(1, both_line) \<in> set (enumerate 1 (file_lines both_line))"
    by (simp add: file_lines_both_line)
  from import_line_is_never_a_usage [OF ips up rd] obtain imps uses where
    r: "search_file_for_imports both_tree [''main.py''] ''os'' ''python'' = Inr (imps, uses)"
    and all: "\<forall>(n, line) \<in> set (enumerate 1 (file_lines both_line)).
           is_import_line ips line \<longrightarrow>
             Some n \<in> line_number ` set imps \<and> Some n \<notin> line_number ` set uses"
    by blast
  from all mem imp have "Some 1 \<in> line_number ` set imps \<and> Some 1 \<notin> line_number ` set uses"
    by blast
  with ips up rd imp use r show ?thesis by blast
qed

lemma scan_lines_no_patterns: "scan_lines filepath [] None n ls = ([], [])"
  by (induction ls arbitrary: n) simp_all

text \<open>
  Claim C10. When the language is none of python, csharp, perl and rust, there is no
  import pattern and no usage pattern, and the scanner returns no import and no usage
  for any file. The language packageset is such a language; detection can return it,
  though the command line does not accept it.
\<close>

theorem non_lexical_language_scans_nothing:
  assumes "lang \<notin> {''python'', ''csharp'', ''perl'', ''rust''}"
  shows "get_import_patterns pkg lang = Inr []
       \<and> get_usage_pattern pkg lang = Inr None
       \<and> search_file_for_imports fs filepath pkg lang = Inr ([], [])"
proof -
  from assms have 1: "get_import_patterns pkg lang = Inr []"
    by (simp add: get_import_patterns_def Let_def)
  from assms have 2: "get_usage_pattern pkg lang = Inr None"
    by (simp add: get_usage_pattern_def Let_def)
  from 1 2 show ?thesis
    by (simp add: search_file_for_imports_def scan_lines_no_patterns split: option.splits)
qed

theorem non_lexical_language_scans_nothing_witness:
  "detect_language packageset_tree [''repo''] = ''packageset''
   \<and> ''packageset'' \<notin> set lang_choices
   \<and> ''packageset'' \<notin> {''python'', ''csharp'', ''perl'', ''rust''}
   \<and> get_import_patterns ''widgets'' ''packageset'' = Inr []
   \<and> get_usage_pattern ''widgets'' ''packageset'' = Inr None
   \<and> search_file_for_imports packageset_tree [''repo'', ''office.widgets.packageset'']
        ''widgets'' (detect_language packageset_tree [''repo'']) = Inr ([], [])"
proof -
  have d: "detect_language packageset_tree [''repo''] = ''packageset''"
    by code_simp
  have n: "''packageset'' \<notin> {''python'', ''csharp'', ''perl'', ''rust''}"
    by simp
  have c: "''packageset'' \<notin> set lang_choices"
    by (simp add: lang_choices_def)
  from d n c non_lexical_language_scans_nothing [OF n, of "''widgets''" packageset_tree
      "[''repo'', ''office.widgets.packageset'']"]
  show ?thesis by simp
qed

section \<open>Properties of the directory walk\<close>

lemma walk_dir_kept:
  "(d, ds, fns) \<in> set (walk_dir p es) \<Longrightarrow>
     \<exists>rel. d = p @ rel \<and> (\<forall>x\<in>set rel. \<not> should_skip_dir x) \<and> (\<forall>x\<in>set ds. \<not> should_skip_dir x)"
  "(d, ds, fns) \<in> set (walk_subs p es) \<Longrightarrow>
     \<exists>rel. d = p @ rel \<and> (\<forall>x\<in>set rel. \<not> should_skip_dir x) \<and> (\<forall>x\<in>set ds. \<not> should_skip_dir x)"
proof (induction p es and p es rule: walk_dir_walk_subs.induct)
  case (1 p es)
  then show ?case by auto
next
  case (2 p)
  then show ?case by simp
next
  case (3 p name t rest)
  then show ?case by simp
next
  case (4 p name es rest)
  then consider "\<not> should_skip_dir name" "(d, ds, fns) \<in> set (walk_dir (p @ [name]) es)"
    | "(d, ds, fns) \<in> set (walk_subs p rest)"
    by (auto split: if_splits)
  then show ?case
  proof cases
    case 1
    with "4.IH"(1) obtain rel where
      "d = (p @ [name]) @ rel" "\<forall>x\<in>set rel. \<not> should_skip_dir x" "\<forall>x\<in>set ds. \<not> should_skip_dir x"
      by blast
    with 1(1) have "d = p @ (name # rel) \<and> (\<forall>x\<in>set (name # rel). \<not> should_skip_dir x)
        \<and> (\<forall>x\<in>set ds. \<not> should_skip_dir x)"
      by simp
    then show ?thesis by blast
  next
    case 2
    with "4.IH"(2) show ?thesis by blast
  qed
qed

lemma walk_kept:
  assumes "(d, ds, fns) \<in> set (walk fs root)"
  shows "\<exists>rel. d = root @ rel \<and> (\<forall>x\<in>set rel. \<not> should_skip_dir x)
           \<and> (\<forall>x\<in>set ds. \<not> should_skip_dir x)"
  using assms walk_dir_kept(1) [of d ds fns root]
  by (auto simp: walk_def split: option.splits node.splits)

lemma under_kept_dirs_file:
  assumes "\<forall>x\<in>set rel. \<not> should_skip_dir x"
  shows "under_kept_dirs root (root @ rel @ [name])"
  using assms by (simp add: under_kept_dirs_def dirs_below_def list_all_iff)

lemma walk_file_kept:
  assumes "(d, ds, fns) \<in> set (walk fs root)"
  shows "under_kept_dirs root (d @ [name])"
proof -
  from walk_kept [OF assms] obtain rel where "d = root @ rel" "\<forall>x\<in>set rel. \<not> should_skip_dir x"
    by blast
  then show ?thesis using under_kept_dirs_file [of rel root name] by simp
qed

text \<open>Conversely, the walk reaches every directory below the root whose path from the
  root has no denylisted name.\<close>

lemma lookup_visited:
  "\<forall>p es'. lookup n rel = Some (Dir es') \<longrightarrow> (\<forall>x\<in>set rel. \<not> should_skip_dir x) \<longrightarrow>
     (\<forall>es. n = Dir es \<longrightarrow> triple_of (p @ rel) es' \<in> set (walk_dir p es))"
  "\<forall>p es'. lookup_in es x xs = Some (Dir es') \<longrightarrow> \<not> should_skip_dir x \<longrightarrow>
     (\<forall>y\<in>set xs. \<not> should_skip_dir y) \<longrightarrow> triple_of (p @ x # xs) es' \<in> set (walk_subs p es)"
proof (induction n rel and es x xs rule: lookup_lookup_in.induct)
  case (1 n)
  show ?case by (auto simp: triple_of_def)
next
  case (2 t x xs)
  show ?case by simp
next
  case (3 es x xs)
  then show ?case by auto
next
  case (4 x xs)
  show ?case by simp
next
  case (5 name n es x xs)
  show ?case
  proof (intro allI impI)
    fix p es'
    assume a: "lookup_in ((name, n) # es) x xs = Some (Dir es')" "\<not> should_skip_dir x"
      "\<forall>y\<in>set xs. \<not> should_skip_dir y"
    show "triple_of (p @ x # xs) es' \<in> set (walk_subs p ((name, n) # es))"
    proof (cases "name = x")
      case True
      with a(1) have l: "lookup n xs = Some (Dir es')" by simp
      show ?thesis
      proof (cases n)
        case (File t)
        with l show ?thesis by (cases xs) simp_all
      next
        case (Dir sub)
        with "5.IH"(1) True l a(3) have "triple_of ((p @ [x]) @ xs) es' \<in> set (walk_dir (p @ [x]) sub)"
          by blast
        with Dir True a(2) show ?thesis by auto
      qed
    next
      case False
      with a(1) have "lookup_in es x xs = Some (Dir es')" by simp
      with "5.IH"(2) False a(2,3) have "triple_of (p @ x # xs) es' \<in> set (walk_subs p es)"
        by blast
      then show ?thesis by (cases n) auto
    qed
  qed
qed

lemma lookup_append:
  "lookup n (a @ b) = (case lookup n a of None \<Rightarrow> None | Some m \<Rightarrow> lookup m b)"
  "lookup_in es x (a @ b) = (case lookup_in es x a of None \<Rightarrow> None | Some m \<Rightarrow> lookup m b)"
  by (induction n a and es x a rule: lookup_lookup_in.induct) (auto split: option.splits)

lemma walk_visits:
  assumes "is_dir fs root" and "lookup fs (root @ rel) = Some (Dir es')"
    and "\<forall>x\<in>set rel. \<not> should_skip_dir x"
  shows "triple_of (root @ rel) es' \<in> set (walk fs root)"
proof -
  from assms(1) obtain es where r: "lookup fs root = Some (Dir es)"
    by (auto simp: is_dir_def split: option.splits node.splits)
  with assms(2) have "lookup (Dir es) rel = Some (Dir es')"
    by (simp add: lookup_append(1))
  with lookup_visited(1) [of "Dir es" rel] assms(3)
  have "triple_of (root @ rel) es' \<in> set (walk_dir root es)" by blast
  with r show ?thesis by (simp add: walk_def)
qed

section \<open>The loops, given that no pattern fails to compile\<close>

lemma collect_total:
  assumes "\<And>x. x \<in> set xs \<Longrightarrow> \<exists>ys. f x = Inr ys"
  shows "\<exists>zs. collect f xs = Inr zs"
  using assms
proof (induction xs)
  case Nil
  show ?case by simp
next
  case (Cons x xs)
  then obtain ys zs where "f x = Inr ys" "collect f xs = Inr zs"
    by (metis list.set_intros(1) list.set_intros(2))
  then show ?case by simp
qed

lemma collect_set:
  assumes "collect f xs = Inr zs"
  shows "set zs = (\<Union>x\<in>set xs. case f x of Inl e \<Rightarrow> {} | Inr ys \<Rightarrow> set ys)"
  using assms
  by (induction xs arbitrary: zs) (auto split: sum.splits)

lemma collect_member:
  assumes "collect f xs = Inr zs" and "z \<in> set zs"
  shows "\<exists>x\<in>set xs. \<exists>ys. f x = Inr ys \<and> z \<in> set ys"
proof -
  from assms collect_set [OF assms(1)] obtain x where
    x: "x \<in> set xs" "z \<in> (case f x of Inl e \<Rightarrow> {} | Inr ys \<Rightarrow> set ys)"
    by auto
  then show ?thesis by (cases "f x") auto
qed

lemma collect_contains:
  assumes "collect f xs = Inr zs" and "x \<in> set xs" and "f x = Inr ys"
  shows "set ys \<subseteq> set zs"
  using assms collect_set [OF assms(1)] by force

lemma packageset_content_match_total:
  "\<exists>ms. packageset_content_match filepath pkg content = Inr ms"
  using id_pattern_total [of pkg]
  by (auto simp: packageset_content_match_def Let_def split: option.splits)

lemma packageset_content_match_path:
  assumes "packageset_content_match filepath pkg content = Inr ms" and "m \<in> set ms"
  shows "path m = filepath"
  using assms
  by (auto simp: packageset_content_match_def Let_def split: sum.splits option.splits if_splits)

lemma packageset_file_total:
  "\<exists>ms. packageset_file fs dirpath filename pkg = Inr ms"
  using packageset_content_match_total
  by (auto simp: packageset_file_def split: option.splits)

lemma packageset_file_path:
  assumes "packageset_file fs dirpath filename pkg = Inr ms" and "m \<in> set ms"
  shows "path m = dirpath @ [filename]"
  using assms packageset_content_match_path
  by (auto simp: packageset_file_def split: option.splits if_splits)

lemma find_packageset_definition_total:
  "\<exists>ms. find_packageset_definition fs root pkg = Inr ms"
  unfolding find_packageset_definition_def
  by (rule collect_total) (auto intro!: collect_total packageset_file_total)

lemma find_packageset_definition_member:
  assumes "find_packageset_definition fs root pkg = Inr ms" and "m \<in> set ms"
  shows "\<exists>dirpath dirnames filenames filename found_here.
           (dirpath, dirnames, filenames) \<in> set (walk fs (pkgset_root fs root))
         \<and> filename \<in> set filenames
         \<and> packageset_file fs dirpath filename pkg = Inr found_here \<and> m \<in> set found_here"
proof -
  from collect_member [OF assms [unfolded find_packageset_definition_def]]
  obtain dirpath dirnames filenames ys where
    t: "(dirpath, dirnames, filenames) \<in> set (walk fs (pkgset_root fs root))"
    and c: "collect (\<lambda>filename. packageset_file fs dirpath filename pkg) filenames = Inr ys"
    and m: "m \<in> set ys"
    by auto
  from collect_member [OF c m] t show ?thesis by blast
qed

lemma find_packageset_definition_contains:
  assumes "find_packageset_definition fs root pkg = Inr ms"
    and "(dirpath, dirnames, filenames) \<in> set (walk fs (pkgset_root fs root))"
    and "filename \<in> set filenames"
    and "packageset_file fs dirpath filename pkg = Inr found_here"
  shows "set found_here \<subseteq> set ms"
proof -
  obtain ys where c: "collect (\<lambda>filename. packageset_file fs dirpath filename pkg) filenames = Inr ys"
    using collect_total [of filenames "\<lambda>filename. packageset_file fs dirpath filename pkg"]
      packageset_file_total by blast
  from collect_contains [OF c assms(3) assms(4)] have "set found_here \<subseteq> set ys" .
  moreover from collect_contains [OF assms(1) [unfolded find_packageset_definition_def] assms(2)] c
  have "set ys \<subseteq> set ms" by simp
  ultimately show ?thesis by blast
qed

lemma definition_lines_path:
  "m \<in> set (definition_lines filepath pats n ls) \<Longrightarrow> path m = filepath"
  by (induction ls arbitrary: n) (auto split: if_splits)

lemma find_package_definition_total:
  "\<exists>ms. find_package_definition fs root pkg lang = Inr ms"
  using get_definition_patterns_total [of pkg lang]
  by (auto simp: find_package_definition_def)

lemma find_package_definition_member:
  assumes "find_package_definition fs root pkg lang = Inr ms" and "m \<in> set ms"
  shows "\<exists>dirpath dirnames filenames name.
           (dirpath, dirnames, filenames) \<in> set (walk fs root) \<and> path m = dirpath @ [name]"
proof (cases "lang = ''python''")
  case True
  with assms show ?thesis
    by (fastforce simp: find_package_definition_def python_definitions_in_def split: if_splits)
next
  case False
  with assms obtain pats where
    "m \<in> set (concat (map (lexical_definitions_in fs lang pats) (walk fs root)))"
    by (auto simp: find_package_definition_def split: sum.splits)
  then obtain dirpath dirnames filenames where
    t: "(dirpath, dirnames, filenames) \<in> set (walk fs root)"
    and "m \<in> set (lexical_definitions_in fs lang pats (dirpath, dirnames, filenames))"
    by auto
  then obtain name where "path m = dirpath @ [name]"
    by (auto simp: lexical_definitions_in_def split: if_splits option.splits
        dest: definition_lines_path)
  with t show ?thesis by blast
qed

lemma scan_lines_path:
  "m \<in> set (fst (scan_lines filepath ips up n ls)) \<union> set (snd (scan_lines filepath ips up n ls))
     \<Longrightarrow> path m = filepath"
  by (auto simp: scan_lines_enumerate line_match_def)

lemma scan_file_path:
  "m \<in> set (fst (scan_file fs ips up filepath)) \<union> set (snd (scan_file fs ips up filepath))
     \<Longrightarrow> path m = filepath"
  using scan_lines_path by (auto simp: scan_file_def split: option.splits)

lemma search_file_for_imports_scan:
  assumes "get_import_patterns pkg lang = Inr ips" and "get_usage_pattern pkg lang = Inr up"
  shows "search_file_for_imports fs filepath pkg lang = Inr (scan_file fs ips up filepath)"
  using assms by (simp add: search_file_for_imports_def scan_file_def split: option.splits)

lemma search_files_batch_scan:
  assumes "get_import_patterns pkg lang = Inr ips" and "get_usage_pattern pkg lang = Inr up"
  shows "search_files_batch fs files pkg lang = Inr (scan_files fs ips up files)"
proof (induction files)
  case Nil
  show ?case by (simp add: scan_files_def)
next
  case (Cons f files)
  then show ?case
    using search_file_for_imports_scan [OF assms, of fs f]
    by (simp add: scan_files_def split: prod.splits)
qed

lemma batch_results_scan:
  assumes "get_import_patterns pkg lang = Inr ips" and "get_usage_pattern pkg lang = Inr up"
  shows "batch_results fs batches pkg lang = Inr (map (scan_files fs ips up) batches)"
  by (induction batches) (simp_all add: search_files_batch_scan [OF assms])

lemma scan_files_concat:
  "concat (map fst (map (scan_files fs ips up) batches)) = fst (scan_files fs ips up (concat batches))"
  "concat (map snd (map (scan_files fs ips up) batches)) = snd (scan_files fs ips up (concat batches))"
  by (induction batches) (simp_all add: scan_files_def)

lemma concat_chunks:
  "0 < n \<Longrightarrow> concat (chunks n xs) = xs"
proof (induction n xs rule: chunks.induct)
  case (1 n xs)
  show ?case
  proof (cases "xs = []")
    case True
    then show ?thesis by (subst chunks.simps) simp
  next
    case False
    with 1 have "concat (chunks n (drop n xs)) = drop n xs" by simp
    with False 1(2) show ?thesis
      by (subst chunks.simps) simp
  qed
qed

lemma iter_source_files_member:
  assumes "p \<in> set (iter_source_files fs root lang cfg)"
  shows "\<exists>dirpath dirnames filenames name.
           (dirpath, dirnames, filenames) \<in> set (walk fs root) \<and> name \<in> set filenames
         \<and> p = dirpath @ [name]"
  using assms
  by (fastforce simp: iter_source_files_def source_files_in_def split: if_splits)

section \<open>Properties of \<open>find_package\<close> as a whole\<close>

lemma find_package_eq:
  assumes "get_import_patterns pkg (resolve_language fs root lang) = Inr ips"
    and "get_usage_pattern pkg (resolve_language fs root lang) = Inr up"
  shows "find_package fs root pkg lang max_workers batch_size search_packagesets arrive =
     (case (if search_packagesets then find_packageset_definition fs root pkg else Inr []) of
        Inl e \<Rightarrow> Inl e
      | Inr pms \<Rightarrow>
     (case find_package_definition fs root pkg (resolve_language fs root lang) of
        Inl e \<Rightarrow> Inl e
      | Inr sdefs \<Rightarrow>
     (case make_batches batch_size
             (iter_source_files fs root (resolve_language fs root lang) True) of
        Inl e \<Rightarrow> Inl e
      | Inr batches \<Rightarrow>
          if (length batches > 1 \<and> max_workers \<noteq> Some 1) \<and> \<not> pool_ok max_workers
          then Inl ValueError
          else Inr (aggregate pkg (resolve_language fs root lang) pms sdefs
                      (if length batches > 1 \<and> max_workers \<noteq> Some 1
                       then arrive (map (scan_files fs ips up) batches)
                       else map (scan_files fs ips up) batches)))))"
proof -
  have p: "(case max_workers of None \<Rightarrow> False | Some w \<Rightarrow> w \<le> 0) = (\<not> pool_ok max_workers)"
    by (auto simp: pool_ok_def split: option.splits)
  show ?thesis
    unfolding find_package_def Let_def resolve_language_def [symmetric] p
      batch_results_scan [OF assms] aggregate_def
    by (simp split: sum.splits)
qed

lemma find_package_cases:
  assumes "find_package fs root pkg lang max_workers batch_size search_packagesets arrive = Inr r"
  obtains pms sdefs ips up batches ordered where
    "(if search_packagesets then find_packageset_definition fs root pkg else Inr []) = Inr pms"
    "find_package_definition fs root pkg (resolve_language fs root lang) = Inr sdefs"
    "get_import_patterns pkg (resolve_language fs root lang) = Inr ips"
    "get_usage_pattern pkg (resolve_language fs root lang) = Inr up"
    "make_batches batch_size (iter_source_files fs root (resolve_language fs root lang) True)
       = Inr batches"
    "ordered = (if length batches > 1 \<and> max_workers \<noteq> Some 1
                then arrive (map (scan_files fs ips up) batches)
                else map (scan_files fs ips up) batches)"
    "r = aggregate pkg (resolve_language fs root lang) pms sdefs ordered"
proof -
  obtain ips where ips: "get_import_patterns pkg (resolve_language fs root lang) = Inr ips"
    using get_import_patterns_total by blast
  obtain up where up: "get_usage_pattern pkg (resolve_language fs root lang) = Inr up"
    using get_usage_pattern_total by blast
  from assms [unfolded find_package_eq [OF ips up]] ips up that show ?thesis
    by (auto split: sum.splits if_splits)
qed

lemma make_batches_files:
  assumes "make_batches batch_size files = Inr batches"
  shows "set (concat batches) \<subseteq> set files"
proof (cases "0 < batch_size")
  case True
  with assms have "batches = chunks (nat batch_size) files"
    by (simp add: make_batches_def split: if_splits)
  with True concat_chunks [of "nat batch_size" files] show ?thesis by simp
next
  case False
  with assms have "batches = []"
    by (simp add: make_batches_def split: if_splits)
  then show ?thesis by simp
qed

lemma scan_files_path:
  assumes "m \<in> set (fst (scan_files fs ips up files)) \<union> set (snd (scan_files fs ips up files))"
  shows "path m \<in> set files"
  using assms scan_file_path [of m fs ips up] by (auto simp: scan_files_def)

lemma pkgset_root_kept:
  assumes "(d, ds, fns) \<in> set (walk fs (pkgset_root fs root))"
  shows "under_kept_dirs root (d @ [name])"
proof (cases "is_dir fs (root @ [''src'', ''otools'', ''deps'', ''pkgsets''])")
  case True
  with assms walk_kept [of d ds fns fs "root @ [''src'', ''otools'', ''deps'', ''pkgsets'']"]
  obtain rel where rel: "d = (root @ [''src'', ''otools'', ''deps'', ''pkgsets'']) @ rel"
    "\<forall>x\<in>set rel. \<not> should_skip_dir x"
    by (auto simp: pkgset_root_def)
  have "\<forall>x\<in>set [''src'', ''otools'', ''deps'', ''pkgsets'']. \<not> should_skip_dir x"
    by (simp add: should_skip_dir_def SKIP_DIRS_def endswith_def)
  with rel(2) have "\<forall>x\<in>set ([''src'', ''otools'', ''deps'', ''pkgsets''] @ rel). \<not> should_skip_dir x"
    by auto
  from under_kept_dirs_file [OF this, of root name] rel(1) show ?thesis by simp
next
  case False
  with assms show ?thesis by (simp add: pkgset_root_def walk_file_kept)
qed

lemma find_packageset_definition_kept:
  assumes "find_packageset_definition fs root pkg = Inr ms" and "m \<in> set ms"
  shows "under_kept_dirs root (path m)"
proof -
  from find_packageset_definition_member [OF assms] obtain dirpath dirnames filenames filename ys
    where "(dirpath, dirnames, filenames) \<in> set (walk fs (pkgset_root fs root))"
      "packageset_file fs dirpath filename pkg = Inr ys" "m \<in> set ys"
    by blast
  then show ?thesis
    using pkgset_root_kept [of dirpath dirnames filenames fs root filename]
      packageset_file_path [of fs dirpath filename pkg ys m] by simp
qed

lemma find_package_definition_kept:
  assumes "find_package_definition fs root pkg lang = Inr ms" and "m \<in> set ms"
  shows "under_kept_dirs root (path m)"
  using find_package_definition_member [OF assms] walk_file_kept [of _ _ _ fs root] by force

lemma iter_source_files_kept:
  assumes "p \<in> set (iter_source_files fs root lang cfg)"
  shows "under_kept_dirs root p"
  using iter_source_files_member [OF assms] walk_file_kept [of _ _ _ fs root] by force

lemma reorders_set: "reorders f \<Longrightarrow> set (f xs) = set xs"
  unfolding reorders_def by (metis set_mset_mset)

lemma find_package_kept:
  assumes "reorders arrive"
    and "find_package fs root pkg lang max_workers batch_size search_packagesets arrive = Inr r"
    and "m \<in> set (definitions r @ imports r @ usages r)"
  shows "under_kept_dirs root (path m)"
proof -
  from assms(2) obtain pms sdefs ips up batches ordered where
    pms: "(if search_packagesets then find_packageset_definition fs root pkg else Inr []) = Inr pms"
    and sdefs: "find_package_definition fs root pkg (resolve_language fs root lang) = Inr sdefs"
    and batches: "make_batches batch_size
        (iter_source_files fs root (resolve_language fs root lang) True) = Inr batches"
    and ordered: "ordered = (if length batches > 1 \<and> max_workers \<noteq> Some 1
                then arrive (map (scan_files fs ips up) batches)
                else map (scan_files fs ips up) batches)"
    and r: "r = aggregate pkg (resolve_language fs root lang) pms sdefs ordered"
    by (rule find_package_cases)
  from ordered assms(1) have so: "set ordered = set (map (scan_files fs ips up) batches)"
    by (simp add: reorders_set)
  have scanned: "under_kept_dirs root (path x)"
    if "x \<in> set (concat (map fst ordered)) \<union> set (concat (map snd ordered))" for x
  proof -
    from that so obtain b where b: "b \<in> set batches"
      "x \<in> set (fst (scan_files fs ips up b)) \<union> set (snd (scan_files fs ips up b))"
      by auto
    from scan_files_path [OF b(2)] b(1) have "path x \<in> set (concat batches)" by auto
    with make_batches_files [OF batches] show ?thesis
      using iter_source_files_kept by blast
  qed
  have pk: "under_kept_dirs root (path x)" if "x \<in> set pms" for x
  proof (cases search_packagesets)
    case True
    with pms that show ?thesis using find_packageset_definition_kept by simp
  next
    case False
    with pms that show ?thesis by simp
  qed
  from assms(3) r consider "m \<in> set pms" | "m \<in> set sdefs"
    | "m \<in> set (concat (map fst ordered)) \<union> set (concat (map snd ordered))"
    by (auto simp: aggregate_def)
  then show ?thesis
  proof cases
    case 1
    then show ?thesis by (rule pk)
  next
    case 2
    with sdefs show ?thesis using find_package_definition_kept by blast
  next
    case 3
    then show ?thesis by (rule scanned)
  qed
qed

text \<open>
  Claim C4. In every walk a directory with a denylisted name (a name of the list, or one
  ending in \<open>.egg-info\<close>) is never entered: every directory that a loop visits lies
  below the root along names that are not denylisted and the subdirectory names left for
  the descent are not denylisted either. So the files collected for scanning, and the
  paths of all matches of the packageset locator, of the definition locator and of the
  final result, lie under directories that are not denylisted.
\<close>

theorem denylisted_directories_are_never_entered:
  "(\<forall>(dirpath, dirnames, filenames) \<in> set (walk fs root).
       take (length root) dirpath = root
     \<and> (\<forall>d \<in> set (drop (length root) dirpath). \<not> should_skip_dir d)
     \<and> (\<forall>d \<in> set dirnames. \<not> should_skip_dir d))
   \<and> (\<forall>p \<in> set (iter_source_files fs root lang include_configs). under_kept_dirs root p)
   \<and> (\<forall>ms. find_packageset_definition fs root pkg = Inr ms \<longrightarrow>
         (\<forall>m \<in> set ms. under_kept_dirs root (path m)))
   \<and> (\<forall>ms. find_package_definition fs root pkg lang = Inr ms \<longrightarrow>
         (\<forall>m \<in> set ms. under_kept_dirs root (path m)))
   \<and> (\<forall>r. reorders arrive \<longrightarrow>
         find_package fs root pkg lang max_workers batch_size search_packagesets arrive = Inr r \<longrightarrow>
         (\<forall>m \<in> set (definitions r @ imports r @ usages r). under_kept_dirs root (path m)))"
proof (intro conjI)
  show "\<forall>(dirpath, dirnames, filenames) \<in> set (walk fs root).
       take (length root) dirpath = root
     \<and> (\<forall>d \<in> set (drop (length root) dirpath). \<not> should_skip_dir d)
     \<and> (\<forall>d \<in> set dirnames. \<not> should_skip_dir d)"
    using walk_kept [of _ _ _ fs root] by fastforce
  show "\<forall>p \<in> set (iter_source_files fs root lang include_configs). under_kept_dirs root p"
    using iter_source_files_kept by blast
  show "\<forall>ms. find_packageset_definition fs root pkg = Inr ms \<longrightarrow>
         (\<forall>m \<in> set ms. under_kept_dirs root (path m))"
    using find_packageset_definition_kept by blast
  show "\<forall>ms. find_package_definition fs root pkg lang = Inr ms \<longrightarrow>
         (\<forall>m \<in> set ms. under_kept_dirs root (path m))"
    using find_package_definition_kept by blast
  show "\<forall>r. reorders arrive \<longrightarrow>
         find_package fs root pkg lang max_workers batch_size search_packagesets arrive = Inr r \<longrightarrow>
         (\<forall>m \<in> set (definitions r @ imports r @ usages r). under_kept_dirs root (path m))"
    using find_package_kept by blast
qed

theorem denylisted_directories_are_never_entered_witness:
  "should_skip_dir ''build''
   \<and> lookup skip_tree [''repo'', ''build'', ''w.py''] = Some (File (Some ''''))
   \<and> reorders (\<lambda>xs. xs)
   \<and> (\<exists>r. find_package skip_tree [''repo''] ''w'' ''python'' None 100 True (\<lambda>xs. xs) = Inr r
          \<and> map path (definitions r) = [[''repo'', ''w.py'']]
          \<and> (\<forall>m \<in> set (definitions r @ imports r @ usages r).
                under_kept_dirs [''repo''] (path m))
          \<and> (\<forall>m \<in> set (definitions r @ imports r @ usages r).
                path m \<noteq> [''repo'', ''build'', ''w.py'']))"
proof -
  have s: "should_skip_dir ''build''"
    by (simp add: should_skip_dir_def SKIP_DIRS_def)
  have l: "lookup skip_tree [''repo'', ''build'', ''w.py''] = Some (File (Some ''''))"
    by (simp add: skip_tree_def)
  have ro: "reorders (\<lambda>xs. xs)"
    by (simp add: reorders_def)
  have "(case find_package skip_tree [''repo''] ''w'' ''python'' None 100 True (\<lambda>xs. xs) of
           Inl e \<Rightarrow> False | Inr r \<Rightarrow> map path (definitions r) = [[''repo'', ''w.py'']])"
    by code_simp
  then obtain r where
    r: "find_package skip_tree [''repo''] ''w'' ''python'' None 100 True (\<lambda>xs. xs) = Inr r"
    and d: "map path (definitions r) = [[''repo'', ''w.py'']]"
    by (auto split: sum.splits)
  from denylisted_directories_are_never_entered
    [of skip_tree "[''repo'']" "''python''" True "''w''" "\<lambda>xs. xs" None 100 True] ro r
  have k: "\<forall>m \<in> set (definitions r @ imports r @ usages r). under_kept_dirs [''repo''] (path m)"
    by blast
  have "\<not> under_kept_dirs [''repo''] [''repo'', ''build'', ''w.py'']"
    using s by (simp add: under_kept_dirs_def dirs_below_def)
  with k have n: "\<forall>m \<in> set (definitions r @ imports r @ usages r).
      path m \<noteq> [''repo'', ''build'', ''w.py'']"
    by metis
  from r d k n have "\<exists>r. find_package skip_tree [''repo''] ''w'' ''python'' None 100 True (\<lambda>xs. xs) = Inr r
          \<and> map path (definitions r) = [[''repo'', ''w.py'']]
          \<and> (\<forall>m \<in> set (definitions r @ imports r @ usages r).
                under_kept_dirs [''repo''] (path m))
          \<and> (\<forall>m \<in> set (definitions r @ imports r @ usages r).
                path m \<noteq> [''repo'', ''build'', ''w.py''])"
    by (intro exI [of _ r] conjI)
  with s l ro show ?thesis by (intro conjI)
qed

section \<open>Properties of the packageset locator\<close>

lemma lower_char_idem: "lower_char (lower_char c) = lower_char c"
proof -
  have "code (char_of (code c + 32)) = code c + 32" if "code c \<le> 222"
    using that by (simp add: code_def)
  then show ?thesis
    by (auto simp: lower_char_def Let_def)
qed

lemma lower_idem: "lower (lower s) = lower s"
  by (simp add: lower_def lower_char_idem)

lemma lower_drop: "drop k (lower s) = lower (drop k s)"
  by (simp add: lower_def drop_map)

lemma after_first_prefix:
  assumes "sep \<noteq> []"
  shows "after_first sep (sep @ rest) = Some rest"
proof -
  from assms obtain c cs where "sep @ rest = c # cs"
    by (cases sep) auto
  moreover have "startswith (sep @ rest) sep" by (simp add: startswith_def)
  ultimately show ?thesis by (metis after_first.simps(2) append_eq_conv_conj)
qed

lemma rsplit1_head_suffix:
  assumes "endswith s sep" and "sep \<noteq> []"
  shows "rsplit1_head s sep = take (length s - length sep) s"
proof -
  from assms(1) have "s = take (length s - length sep) s @ sep"
    by (metis append_take_drop_id endswith_def)
  then have "rev s = rev sep @ rev (take (length s - length sep) s)"
    by (metis rev_append)
  with assms(2) after_first_prefix [of "rev sep" "rev (take (length s - length sep) s)"]
  show ?thesis by (simp add: rsplit1_head_def)
qed

lemma filename_match_stem:
  assumes "endswith filename ''.packageset''"
  shows "filename_match filename pkg \<longleftrightarrow>
     packageset_stem filename = lower pkg
     \<or> endswith (packageset_stem filename) (''.'' @ lower pkg)"
  using rsplit1_head_suffix [OF assms]
  by (simp add: filename_match_def packageset_stem_def Let_def)

lemma stem_is_lower:
  assumes "packageset_stem filename = pkg \<or> endswith (packageset_stem filename) (''.'' @ pkg)"
  shows "lower pkg = pkg"
  using assms
proof
  assume "packageset_stem filename = pkg"
  then show ?thesis by (auto simp: packageset_stem_def lower_idem)
next
  assume "endswith (packageset_stem filename) (''.'' @ pkg)"
  then have "pkg = drop 1 (drop (length (packageset_stem filename) - length (''.'' @ pkg))
      (packageset_stem filename))"
    by (simp add: endswith_def)
  also have "\<dots> = lower (drop 1 (drop (length (packageset_stem filename) - length (''.'' @ pkg))
      (take (length filename - length ''.packageset'') filename)))"
    by (simp only: packageset_stem_def lower_drop)
  finally obtain t where "pkg = lower t" by blast
  then show ?thesis by (simp add: lower_idem)
qed

text \<open>
  Claim C5. For a \<open>.packageset\<close> file whose name without the extension, in lower case,
  equals the package name or ends with a dot and the package name, the loop body of the
  packageset locator yields exactly one match: a definition for that file, with no line
  number. The match does not depend on the file system, so the content is not
  inspected (the file may even be unreadable). In the locator's result, that match is
  there for every such file that the walk lists, and it is the only match for its path.
\<close>

theorem packageset_filename_match_short_circuits:
  assumes "endswith filename ''.packageset''"
    and "packageset_stem filename = pkg \<or> endswith (packageset_stem filename) (''.'' @ pkg)"
  shows "packageset_file fs dirpath filename pkg = Inr [filename_definition dirpath filename]
       \<and> line_number (filename_definition dirpath filename) = None
       \<and> (\<exists>ms. find_packageset_definition fs root pkg = Inr ms
             \<and> ((\<exists>dirnames filenames.
                     (dirpath, dirnames, filenames) \<in> set (walk fs (pkgset_root fs root))
                   \<and> filename \<in> set filenames)
                  \<longrightarrow> filename_definition dirpath filename \<in> set ms)
             \<and> (\<forall>m \<in> set ms. path m = dirpath @ [filename]
                  \<longrightarrow> m = filename_definition dirpath filename))"
proof -
  from stem_is_lower [OF assms(2)] assms have "filename_match filename pkg"
    by (simp add: filename_match_stem)
  with assms(1) have body: "packageset_file fs' dirpath filename pkg
      = Inr [filename_definition dirpath filename]" for fs'
    by (simp add: packageset_file_def filename_definition_def)
  obtain ms where ms: "find_packageset_definition fs root pkg = Inr ms"
    using find_packageset_definition_total by blast
  have there: "filename_definition dirpath filename \<in> set ms"
    if "(dirpath, dirnames, filenames) \<in> set (walk fs (pkgset_root fs root))"
      "filename \<in> set filenames" for dirnames filenames
    using find_packageset_definition_contains [OF ms that body] by simp
  have only: "m = filename_definition dirpath filename"
    if "m \<in> set ms" "path m = dirpath @ [filename]" for m
  proof -
    from find_packageset_definition_member [OF ms that(1)]
    obtain d f ys where ys: "packageset_file fs d f pkg = Inr ys" "m \<in> set ys"
      by blast
    from packageset_file_path [OF ys] that(2) have "d = dirpath" "f = filename"
      by simp_all
    with ys body [of fs] show ?thesis by auto
  qed
  from body ms there only show ?thesis
    by (auto simp: filename_definition_def)
qed

theorem packageset_filename_match_short_circuits_witness:
  "endswith ''office.engineering.opmlite.packageset'' ''.packageset''
   \<and> endswith (packageset_stem ''office.engineering.opmlite.packageset'') (''.'' @ ''opmlite'')
   \<and> read_text opmlite_tree [''pkgsets'', ''office.engineering.opmlite.packageset''] = None
   \<and> packageset_file opmlite_tree [''pkgsets''] ''office.engineering.opmlite.packageset'' ''opmlite''
       = Inr [filename_definition [''pkgsets''] ''office.engineering.opmlite.packageset'']
   \<and> (\<exists>ms. find_packageset_definition opmlite_tree [] ''opmlite'' = Inr ms
          \<and> filename_definition [''pkgsets''] ''office.engineering.opmlite.packageset'' \<in> set ms)"
proof -
  have e: "endswith ''office.engineering.opmlite.packageset'' ''.packageset''"
    by (simp add: endswith_def)
  have s: "packageset_stem ''office.engineering.opmlite.packageset'' = ''office.engineering.opmlite''"
    by (simp add: packageset_stem_def lower_def lower_char_def code_def)
  have h: "packageset_stem ''office.engineering.opmlite.packageset'' = ''opmlite''
      \<or> endswith (packageset_stem ''office.engineering.opmlite.packageset'') (''.'' @ ''opmlite'')"
    by (simp add: s endswith_def)
  have rd: "read_text opmlite_tree [''pkgsets'', ''office.engineering.opmlite.packageset''] = None"
    by (simp add: read_text_def opmlite_tree_def)
  have w: "([''pkgsets''], [], [''office.engineering.opmlite.packageset'', ''opmlite.packageset''])
      \<in> set (walk opmlite_tree (pkgset_root opmlite_tree []))"
    by (simp add: walk_def pkgset_root_def is_dir_def opmlite_tree_def should_skip_dir_def
        SKIP_DIRS_def endswith_def)
  have x: "\<exists>dirnames filenames.
       ([''pkgsets''], dirnames, filenames) \<in> set (walk opmlite_tree (pkgset_root opmlite_tree []))
     \<and> ''office.engineering.opmlite.packageset'' \<in> set filenames"
  proof (intro exI conjI)
    show "([''pkgsets''], [], [''office.engineering.opmlite.packageset'', ''opmlite.packageset''])
      \<in> set (walk opmlite_tree (pkgset_root opmlite_tree []))"
      by (rule w)
    show "''office.engineering.opmlite.packageset''
      \<in> set [''office.engineering.opmlite.packageset'', ''opmlite.packageset'']"
      by (rule list.set_intros(1))
  qed
  note t = packageset_filename_match_short_circuits
    [OF e h, of opmlite_tree "[''pkgsets'']" "[]"]
  from t have 1: "packageset_file opmlite_tree [''pkgsets'']
       ''office.engineering.opmlite.packageset'' ''opmlite''
       = Inr [filename_definition [''pkgsets''] ''office.engineering.opmlite.packageset'']"
    by (rule conjunct1)
  from t x have 2: "\<exists>ms. find_packageset_definition opmlite_tree [] ''opmlite'' = Inr ms
          \<and> filename_definition [''pkgsets''] ''office.engineering.opmlite.packageset'' \<in> set ms"
    by blast
  have 3: "endswith (packageset_stem ''office.engineering.opmlite.packageset'') (''.'' @ ''opmlite'')"
    by (simp add: s endswith_def)
  from e 3 rd 1 2 show ?thesis by (intro conjI)
qed

section \<open>Properties of the definition locator\<close>

lemma python_definitions_eq:
  "find_package_definition fs root pkg ''python''
     = Inr (concat (map (python_definitions_in pkg) (walk fs root)))"
  by (simp add: find_package_definition_def)

lemma python_definitions_in_triple:
  "python_definitions_in pkg (dirpath, dirnames, filenames) =
     (if dir_name dirpath = pkg \<and> ''__init__.py'' \<in> set filenames
      then [marker_match dirpath] else [])
     @ (if pkg @ ''.py'' \<in> set filenames then [module_match pkg dirpath] else [])"
  by (simp add: python_definitions_in_def marker_match_def module_match_def)

text \<open>
  Claim C8. For a Python search the definition locator looks at names only. For every
  directory that the walk reaches (a directory below the root along names that are not
  denylisted, or the root itself): if its name is the package name and it holds a file
  \<open>__init__.py\<close>, the result has the definition match of that file, with no line
  number; and if it holds a file named after the package with the extension \<open>.py\<close>,
  the result has the definition match of that file. Both are recorded when both apply.
  The result has no other matches.
\<close>

theorem python_definitions_are_structural:
  assumes "is_dir fs root"
    and "lookup fs (root @ rel) = Some (Dir es)"
    and "\<forall>d \<in> set rel. \<not> should_skip_dir d"
  shows "\<exists>ms. find_package_definition fs root pkg ''python'' = Inr ms
       \<and> (dir_name (root @ rel) = pkg \<and> ''__init__.py'' \<in> set (filenames_of es)
            \<longrightarrow> marker_match (root @ rel) \<in> set ms
                \<and> line_number (marker_match (root @ rel)) = None)
       \<and> (pkg @ ''.py'' \<in> set (filenames_of es)
            \<longrightarrow> module_match pkg (root @ rel) \<in> set ms)
       \<and> (dir_name (root @ rel) = pkg \<and> ''__init__.py'' \<in> set (filenames_of es)
            \<and> pkg @ ''.py'' \<in> set (filenames_of es)
            \<longrightarrow> python_definitions_in pkg (triple_of (root @ rel) es)
                  = [marker_match (root @ rel), module_match pkg (root @ rel)])
       \<and> (\<forall>m \<in> set ms. \<exists>(dirpath, dirnames, filenames) \<in> set (walk fs root).
              (m = marker_match dirpath \<and> dir_name dirpath = pkg
                 \<and> ''__init__.py'' \<in> set filenames)
            \<or> (m = module_match pkg dirpath \<and> pkg @ ''.py'' \<in> set filenames))"
proof -
  let ?ms = "concat (map (python_definitions_in pkg) (walk fs root))"
  have t: "triple_of (root @ rel) es \<in> set (walk fs root)"
    using walk_visits [OF assms] .
  have here: "set (python_definitions_in pkg (triple_of (root @ rel) es)) \<subseteq> set ?ms"
    using t by auto
  have 1: "marker_match (root @ rel) \<in> set ?ms"
    if "dir_name (root @ rel) = pkg \<and> ''__init__.py'' \<in> set (filenames_of es)"
    using here that by (simp add: triple_of_def python_definitions_in_triple)
  have 2: "module_match pkg (root @ rel) \<in> set ?ms"
    if "pkg @ ''.py'' \<in> set (filenames_of es)"
    using here that by (simp add: triple_of_def python_definitions_in_triple)
  have 3: "python_definitions_in pkg (triple_of (root @ rel) es)
                  = [marker_match (root @ rel), module_match pkg (root @ rel)]"
    if "dir_name (root @ rel) = pkg \<and> ''__init__.py'' \<in> set (filenames_of es)
            \<and> pkg @ ''.py'' \<in> set (filenames_of es)"
    using that by (simp add: triple_of_def python_definitions_in_triple)
  have 4: "\<exists>(dirpath, dirnames, filenames) \<in> set (walk fs root).
              (m = marker_match dirpath \<and> dir_name dirpath = pkg
                 \<and> ''__init__.py'' \<in> set filenames)
            \<or> (m = module_match pkg dirpath \<and> pkg @ ''.py'' \<in> set filenames)"
    if "m \<in> set ?ms" for m
  proof -
    from that obtain dirpath dirnames filenames where
      w: "(dirpath, dirnames, filenames) \<in> set (walk fs root)"
      and m: "m \<in> set (python_definitions_in pkg (dirpath, dirnames, filenames))"
      by auto
    from m have "(m = marker_match dirpath \<and> dir_name dirpath = pkg
                 \<and> ''__init__.py'' \<in> set filenames)
            \<or> (m = module_match pkg dirpath \<and> pkg @ ''.py'' \<in> set filenames)"
      by (auto simp: python_definitions_in_triple split: if_splits)
    with w show ?thesis by blast
  qed
  have 0: "line_number (marker_match (root @ rel)) = None"
    by (simp add: marker_match_def)
  from 0 1 2 3 4 show ?thesis
    unfolding python_definitions_eq by blast
qed

theorem python_definitions_are_structural_witness:
  "is_dir widgets_tree [''src'']
   \<and> find_package_definition widgets_tree [''src''] ''widgets'' ''python''
       = Inr [module_match ''widgets'' [''src''], marker_match [''src'', ''widgets'']]
   \<and> (\<exists>ms. find_package_definition widgets_tree [''src''] ''widgets'' ''python'' = Inr ms
          \<and> marker_match ([''src''] @ [''widgets'']) \<in> set ms
          \<and> module_match ''widgets'' ([''src''] @ []) \<in> set ms)"
proof -
  have d: "is_dir widgets_tree [''src'']"
    by (simp add: is_dir_def widgets_tree_def)
  have k: "\<forall>d \<in> set [''widgets'']. \<not> should_skip_dir d"
    by (simp add: should_skip_dir_def SKIP_DIRS_def endswith_def)
  have l1: "lookup widgets_tree ([''src''] @ [''widgets''])
      = Some (Dir [(''__init__.py'', File (Some ''''))])"
    by (simp add: widgets_tree_def)
  have l2: "lookup widgets_tree ([''src''] @ [])
      = Some (Dir [(''widgets'', Dir [(''__init__.py'', File (Some ''''))]),
                   (''widgets.py'', File (Some ''''))])"
    by (simp add: widgets_tree_def)
  have e: "find_package_definition widgets_tree [''src''] ''widgets'' ''python''
       = Inr [module_match ''widgets'' [''src''], marker_match [''src'', ''widgets'']]"
    by (simp add: python_definitions_eq walk_def widgets_tree_def python_definitions_in_triple
        dir_name_def should_skip_dir_def SKIP_DIRS_def endswith_def)
  from python_definitions_are_structural [OF d l1 k, of "''widgets''"]
  have a: "marker_match ([''src''] @ [''widgets''])
      \<in> set [module_match ''widgets'' [''src''], marker_match [''src'', ''widgets'']]"
    unfolding e by (simp add: dir_name_def)
  from python_definitions_are_structural [OF d l2, of "''widgets''"]
  have b: "module_match ''widgets'' ([''src''] @ [])
      \<in> set [module_match ''widgets'' [''src''], marker_match [''src'', ''widgets'']]"
    unfolding e by simp
  from d e a b show ?thesis by blast
qed

section \<open>Properties of language detection\<close>

lemma find_append:
  "find P (xs @ ys) = (case find P xs of None \<Rightarrow> find P ys | Some x \<Rightarrow> Some x)"
  by (induction xs) auto

lemma find_cong_set:
  "(\<And>x. x \<in> set xs \<Longrightarrow> P x = Q x) \<Longrightarrow> find P xs = find Q xs"
  by (induction xs) auto

lemma max_from_first:
  assumes "b \<in> set pre" and "\<forall>z\<in>set pre. key z \<le> key b"
    and "find (\<lambda>y. key b \<le> key y) pre = Some b"
  shows "find (\<lambda>y. \<forall>z\<in>set (pre @ xs). key z \<le> key y) (pre @ xs) = Some (max_from key b xs)"
  using assms
proof (induction xs arbitrary: pre b)
  case Nil
  have "find (\<lambda>y. \<forall>z\<in>set pre. key z \<le> key y) pre = find (\<lambda>y. key b \<le> key y) pre"
    using Nil(1,2) by (intro find_cong_set) (meson order_trans)
  with Nil(3) show ?case by simp
next
  case (Cons x xs)
  let ?b = "if key b < key x then x else b"
  have 1: "?b \<in> set (pre @ [x])" using Cons.prems(1) by simp
  have 2: "\<forall>z\<in>set (pre @ [x]). key z \<le> key ?b"
    using Cons.prems(2) by (auto simp: not_less intro: order_trans less_imp_le)
  have 3: "find (\<lambda>y. key ?b \<le> key y) (pre @ [x]) = Some ?b"
  proof (cases "key b < key x")
    case True
    with Cons.prems(2) have "find (\<lambda>y. key x \<le> key y) pre = None"
      by (auto simp: find_None_iff)
    with True show ?thesis by (simp add: find_append)
  next
    case False
    with Cons.prems(3) show ?thesis by (simp add: find_append)
  qed
  from Cons.IH [OF 1 2 3] show ?case by simp
qed

lemma max_from_find:
  "find (\<lambda>y. \<forall>z\<in>set (b # xs). key z \<le> key y) (b # xs) = Some (max_from key b xs)"
  using max_from_first [where b = b and pre = "[b]" and key = key and xs = xs] by simp

lemma max_from_mem: "max_from key b xs \<in> set (b # xs)"
  by (induction xs arbitrary: b) (auto split: if_splits)

lemma max_from_ge_start: "key b \<le> key (max_from key b xs)"
proof (induction xs arbitrary: b)
  case Nil
  show ?case by simp
next
  case (Cons x xs)
  show ?case
    using Cons.IH [of x] Cons.IH [of b] by (auto intro: order_trans less_imp_le)
qed

lemma max_from_ge: "z \<in> set xs \<Longrightarrow> key z \<le> key (max_from key b xs)"
proof (induction xs arbitrary: b)
  case Nil
  then show ?case by simp
next
  case (Cons x xs)
  show ?case
  proof (cases "z = x")
    case True
    show ?thesis
    proof (cases "key b < key x")
      case True
      with \<open>z = x\<close> show ?thesis using max_from_ge_start [of key x xs] by simp
    next
      case False
      then have "key x \<le> key b" by simp
      with \<open>z = x\<close> False show ?thesis
        using max_from_ge_start [of key b xs] by (auto intro: order_trans)
    qed
  next
    case False
    with Cons.prems have "z \<in> set xs" by simp
    from Cons.IH [OF this] show ?thesis by simp
  qed
qed

lemma max_from_zero:
  "max_from id b xs = (0::nat) \<longleftrightarrow> (\<forall>z\<in>set (b # xs). z = 0)"
proof
  assume z: "max_from id b xs = 0"
  show "\<forall>z\<in>set (b # xs). z = 0"
  proof
    fix y assume "y \<in> set (b # xs)"
    then have "y \<le> max_from id b xs"
      using max_from_ge_start [of id b xs] max_from_ge [of y xs id b] by auto
    with z show "y = 0" by simp
  qed
next
  assume "\<forall>z\<in>set (b # xs). z = 0"
  with max_from_mem [of id b xs] show "max_from id b xs = 0" by blast
qed

lemma count_file_keys: "map fst (count_file filename counts) = map fst counts"
  by (auto simp: count_file_def split: option.splits)

lemma fold_count_file_keys: "map fst (fold count_file filenames counts) = map fst counts"
  by (induction filenames arbitrary: counts) (simp_all add: count_file_keys)

lemma census_keys: "map fst (census counts triples) = map fst counts"
  by (induction counts triples rule: census.induct) (simp_all add: Let_def fold_count_file_keys)

lemma language_counts_keys: "map fst (language_counts fs root) = map fst LANGUAGE_CONFIG"
  by (simp add: language_counts_def census_keys initial_counts_def comp_def case_prod_unfold)

lemma fold_count_file:
  "fold count_file filenames counts =
     map (\<lambda>(l, n). (l, n + files_of_language l filenames)) counts"
proof (induction filenames arbitrary: counts)
  case Nil
  show ?case by (simp add: files_of_language_def)
next
  case (Cons f filenames)
  have "fold count_file (f # filenames) counts =
      map (\<lambda>(l, n). (l, n + files_of_language l filenames)) (count_file f counts)"
    by (simp add: Cons.IH)
  also have "\<dots> = map (\<lambda>(l, n). (l, n + files_of_language l (f # filenames))) counts"
    by (cases "language_of_file f") (auto simp: count_file_def files_of_language_def)
  finally show ?case .
qed

lemma census_counted:
  "census counts triples = fold count_file (counted_files counts triples) counts"
  by (induction counts triples rule: census.induct) (simp_all add: Let_def)

lemma language_counts_eq:
  "language_counts fs root =
     map (\<lambda>(l, cfg). (l, files_of_language l (counted_files initial_counts (walk fs root))))
       LANGUAGE_CONFIG"
  by (simp add: language_counts_def census_counted fold_count_file initial_counts_def
      comp_def case_prod_unfold)

lemma counted_files_none:
  assumes "\<forall>(d, ds, fns)\<in>set triples. fns = []"
  shows "counted_files counts triples = []"
  using assms
  by (induction counts triples rule: counted_files.induct) auto

text \<open>
  Claim C7. Detection keeps one counter per language of the registry, in registry order;
  a counter is the number of counted files whose extension belongs to that language. If
  every counter is zero, in particular when the tree has no files, the result is the
  fixed default \<open>csharp\<close> (nothing is raised: the function is total). Otherwise the
  result is the first language, in registry order, whose counter is the greatest.
\<close>

theorem detect_language_first_maximum:
  "map fst (language_counts fs root) = map fst LANGUAGE_CONFIG
   \<and> (\<forall>(l, n) \<in> set (language_counts fs root).
         n = files_of_language l (counted_files initial_counts (walk fs root)))
   \<and> ((\<forall>(l, n) \<in> set (language_counts fs root). n = 0)
         \<longrightarrow> detect_language fs root = ''csharp'')
   \<and> ((\<forall>(d, ds, fns) \<in> set (walk fs root). fns = [])
         \<longrightarrow> detect_language fs root = ''csharp'')
   \<and> (\<not> (\<forall>(l, n) \<in> set (language_counts fs root). n = 0)
         \<longrightarrow> (\<exists>n. find (\<lambda>(l, n). \<forall>(l', n') \<in> set (language_counts fs root). n' \<le> n)
                       (language_counts fs root)
                   = Some (detect_language fs root, n)))"
proof -
  let ?c = "language_counts fs root"
  have keys: "map fst ?c = map fst LANGUAGE_CONFIG"
    by (rule language_counts_keys)
  then have ne: "?c \<noteq> []"
    by (auto simp: LANGUAGE_CONFIG_def)
  then have split: "hd ?c # tl ?c = ?c" "hd (map snd ?c) # tl (map snd ?c) = map snd ?c"
    by (simp_all del: hd_map map_tl)
  have counted: "\<forall>(l, n) \<in> set ?c.
      n = files_of_language l (counted_files initial_counts (walk fs root))"
    by (subst language_counts_eq) auto
  have zero_iff: "max_from id (hd (map snd ?c)) (tl (map snd ?c)) = 0
      \<longleftrightarrow> (\<forall>(l, n) \<in> set ?c. n = 0)"
    unfolding max_from_zero split by auto
  have zero: "detect_language fs root = ''csharp''" if "\<forall>(l, n) \<in> set ?c. n = 0"
    using that zero_iff by (simp add: detect_language_def Let_def)
  have empty: "detect_language fs root = ''csharp''"
    if "\<forall>(d, ds, fns) \<in> set (walk fs root). fns = []"
  proof -
    from counted_files_none [OF that] have "counted_files initial_counts (walk fs root) = []" .
    with counted have "\<forall>(l, n) \<in> set ?c. n = 0"
      by (auto simp: files_of_language_def)
    then show ?thesis by (rule zero)
  qed
  have first: "\<exists>n. find (\<lambda>(l, n). \<forall>(l', n') \<in> set ?c. n' \<le> n) ?c
      = Some (detect_language fs root, n)"
    if "\<not> (\<forall>(l, n) \<in> set ?c. n = 0)"
  proof -
    from that zero_iff have "max_from id (hd (map snd ?c)) (tl (map snd ?c)) \<noteq> 0"
      by blast
    then have d: "detect_language fs root = fst (max_from snd (hd ?c) (tl ?c))"
      by (simp add: detect_language_def Let_def)
    have "find (\<lambda>(l, n). \<forall>(l', n') \<in> set ?c. n' \<le> n) ?c
        = find (\<lambda>y. \<forall>z\<in>set ?c. snd z \<le> snd y) ?c"
      by (intro find_cong_set) auto
    also have "\<dots> = find (\<lambda>y. \<forall>z\<in>set (hd ?c # tl ?c). snd z \<le> snd y) (hd ?c # tl ?c)"
      by (simp only: split(1))
    also have "\<dots> = Some (max_from snd (hd ?c) (tl ?c))"
      by (rule max_from_find)
    finally have "find (\<lambda>(l, n). \<forall>(l', n') \<in> set ?c. n' \<le> n) ?c
        = Some (max_from snd (hd ?c) (tl ?c))" .
    with d show ?thesis
      by (metis prod.collapse)
  qed
  from keys counted zero empty first show ?thesis by blast
qed

theorem detect_language_first_maximum_witness:
  "language_counts tie_tree [''repo'']
     = [(''python'', 1), (''csharp'', 1), (''perl'', 0), (''rust'', 0), (''packageset'', 0)]
   \<and> find (\<lambda>(l, n). \<forall>(l', n') \<in> set (language_counts tie_tree [''repo'']). n' \<le> n)
        (language_counts tie_tree [''repo''])
       = Some (''python'', 1)
   \<and> detect_language tie_tree [''repo''] = ''python''
   \<and> walk empty_tree [''repo''] = [([''repo''], [], [])]
   \<and> detect_language empty_tree [''repo''] = ''csharp''"
proof -
  have c: "language_counts tie_tree [''repo'']
     = [(''python'', 1), (''csharp'', 1), (''perl'', 0), (''rust'', 0), (''packageset'', 0)]"
    by code_simp
  have nz: "\<not> (\<forall>(l, n) \<in> set (language_counts tie_tree [''repo'']). n = 0)"
    unfolding c by simp
  have f: "find (\<lambda>(l, n). \<forall>(l', n') \<in> set (language_counts tie_tree [''repo'']). n' \<le> n)
        (language_counts tie_tree [''repo''])
       = Some (''python'', 1)"
    unfolding c by simp
  from detect_language_first_maximum [of tie_tree "[''repo'']"] nz f
  have d: "detect_language tie_tree [''repo''] = ''python''"
    by auto
  have w: "walk empty_tree [''repo''] = [([''repo''], [], [])]"
    by (simp add: walk_def empty_tree_def)
  then have "\<forall>(d, ds, fns) \<in> set (walk empty_tree [''repo'']). fns = []"
    by simp
  with detect_language_first_maximum [of empty_tree "[''repo'']"]
  have e: "detect_language empty_tree [''repo''] = ''csharp''"
    by blast
  from c f d w e show ?thesis by (intro conjI)
qed

section \<open>Order of the aggregated matches\<close>

text \<open>A stable sort forgets the order of its input wherever elements with equal keys
  are equal.\<close>

lemma same_elements_same_list:
  assumes "mset xs = mset ys" and "\<forall>x\<in>set ys. \<forall>y\<in>set ys. x = y"
  shows "xs = ys"
proof (cases ys)
  case Nil
  with assms(1) show ?thesis by simp
next
  case (Cons v vs)
  from assms(1) have s: "set xs = set ys"
    by (rule mset_eq_setD)
  from assms(1) have l: "length xs = length ys"
    by (rule mset_eq_length)
  from Cons have "v \<in> set ys" by simp
  with assms(2) have v: "\<And>y. y \<in> set ys \<Longrightarrow> y = v" by blast
  have "xs = replicate (length ys) v"
    using l v s by (intro replicate_eqI) simp_all
  moreover have "ys = replicate (length ys) v"
    using v by (intro replicate_eqI) simp_all
  ultimately show ?thesis by simp
qed

lemma sort_key_reordered:
  assumes "mset A = mset B"
    and "\<forall>x\<in>set B. \<forall>y\<in>set B. f x = f y \<longrightarrow> x = y"
  shows "sort_key f (pre @ A) = sort_key f (pre @ B)"
proof (rule properties_for_sort_key)
  show "mset (sort_key f (pre @ B)) = mset (pre @ A)"
    using assms(1) by simp
  show "sorted (map f (sort_key f (pre @ B)))"
    by (rule sorted_sort_key)
  fix e
  assume "e \<in> set (sort_key f (pre @ B))"
  have "filter (\<lambda>x. f e = f x) A = filter (\<lambda>x. f e = f x) B"
  proof (rule same_elements_same_list)
    show "mset (filter (\<lambda>x. f e = f x) A) = mset (filter (\<lambda>x. f e = f x) B)"
      using assms(1) by simp
    show "\<forall>x\<in>set (filter (\<lambda>x. f e = f x) B). \<forall>y\<in>set (filter (\<lambda>x. f e = f x) B). x = y"
      using assms(2) by auto
  qed
  moreover have "filter (\<lambda>x. f e = f x) (sort_key f (pre @ B)) = filter (\<lambda>x. f e = f x) (pre @ B)"
    using sort_key_stable [of f "f e" "pre @ B"] by (simp add: eq_commute)
  ultimately show "filter (\<lambda>x. f e = f x) (sort_key f (pre @ B)) = filter (\<lambda>x. f e = f x) (pre @ A)"
    by simp
qed

lemma mset_concat_map:
  assumes "mset xs = mset ys"
  shows "mset (concat (map g xs)) = mset (concat (map g ys))"
proof -
  have h: "mset (concat (map g zs)) = sum_mset (image_mset (\<lambda>z. mset (g z)) (mset zs))" for zs
    by (induction zs) simp_all
  show ?thesis by (simp only: h assms)
qed

text \<open>Within the matches of one kind that a scan produces, the sort key (path and line
  number) determines the match.\<close>

lemma enumerate_functional:
  assumes "(n, a) \<in> set (enumerate k ls)" and "(n, b) \<in> set (enumerate k ls)"
  shows "a = b"
  using assms by (simp add: in_set_enumerate_eq)

lemma scan_lines_import_form:
  assumes "x \<in> set (fst (scan_lines filepath ips up k ls))"
  shows "\<exists>n a. x = line_match filepath ''import'' (n, a) \<and> (n, a) \<in> set (enumerate k ls)"
proof -
  from assms have "x \<in> line_match filepath ''import'' `
      set (filter (\<lambda>(k, l). is_import_line ips l) (enumerate k ls))"
    by (simp add: scan_lines_enumerate)
  then obtain p where p: "x = line_match filepath ''import'' p"
    "p \<in> set (filter (\<lambda>(k, l). is_import_line ips l) (enumerate k ls))"
    by (rule imageE)
  from p(2) have "p \<in> set (enumerate k ls)"
    by (simp only: set_filter mem_Collect_eq)
  with p(1) show ?thesis
    by (metis prod.collapse)
qed

lemma scan_lines_usage_form:
  assumes "x \<in> set (snd (scan_lines filepath ips up k ls))"
  shows "\<exists>n a. x = line_match filepath ''usage'' (n, a) \<and> (n, a) \<in> set (enumerate k ls)"
proof -
  from assms have "x \<in> line_match filepath ''usage'' `
      set (filter (\<lambda>(k, l). \<not> is_import_line ips l \<and> is_usage_line up l) (enumerate k ls))"
    by (simp add: scan_lines_enumerate)
  then obtain p where p: "x = line_match filepath ''usage'' p"
    "p \<in> set (filter (\<lambda>(k, l). \<not> is_import_line ips l \<and> is_usage_line up l) (enumerate k ls))"
    by (rule imageE)
  from p(2) have "p \<in> set (enumerate k ls)"
    by (simp only: set_filter mem_Collect_eq)
  with p(1) show ?thesis
    by (metis prod.collapse)
qed

lemma scan_lines_key_determines:
  assumes "x \<in> set (fst (scan_lines filepath ips up k ls))"
    and "y \<in> set (fst (scan_lines filepath ips up k ls))"
    and "line_number x = line_number y"
  shows "x = y"
proof -
  from scan_lines_import_form [OF assms(1)] obtain n a where
    x: "x = line_match filepath ''import'' (n, a)" "(n, a) \<in> set (enumerate k ls)"
    by blast
  from scan_lines_import_form [OF assms(2)] obtain m b where
    y: "y = line_match filepath ''import'' (m, b)" "(m, b) \<in> set (enumerate k ls)"
    by blast
  from x(1) y(1) assms(3) have nm: "n = m" by (simp add: line_match_def)
  with x(2) y(2) have "a = b" by (simp add: in_set_enumerate_eq)
  with x(1) y(1) nm show ?thesis by simp
qed

lemma scan_lines_key_determines_usage:
  assumes "x \<in> set (snd (scan_lines filepath ips up k ls))"
    and "y \<in> set (snd (scan_lines filepath ips up k ls))"
    and "line_number x = line_number y"
  shows "x = y"
proof -
  from scan_lines_usage_form [OF assms(1)] obtain n a where
    x: "x = line_match filepath ''usage'' (n, a)" "(n, a) \<in> set (enumerate k ls)"
    by blast
  from scan_lines_usage_form [OF assms(2)] obtain m b where
    y: "y = line_match filepath ''usage'' (m, b)" "(m, b) \<in> set (enumerate k ls)"
    by blast
  from x(1) y(1) assms(3) have nm: "n = m" by (simp add: line_match_def)
  with x(2) y(2) have "a = b" by (simp add: in_set_enumerate_eq)
  with x(1) y(1) nm show ?thesis by simp
qed

lemma scan_lines_numbered:
  assumes "x \<in> set (fst (scan_lines filepath ips up k ls)) \<union> set (snd (scan_lines filepath ips up k ls))"
  shows "\<exists>n. line_number x = Some n"
  using assms scan_lines_import_form [of x filepath ips up k ls]
    scan_lines_usage_form [of x filepath ips up k ls]
  by (auto simp: line_match_def)


lemma scan_file_key_determines:
  assumes "x \<in> set (fst (scan_file fs ips up f))" and "y \<in> set (fst (scan_file fs ips up f))"
    and "sort_key_of x = sort_key_of y"
  shows "x = y"
proof (cases "read_text fs f")
  case None
  with assms(1) show ?thesis by (simp add: scan_file_def)
next
  case (Some content)
  with assms(1,2) have m: "x \<in> set (fst (scan_lines f ips up 1 (file_lines content)))"
      "y \<in> set (fst (scan_lines f ips up 1 (file_lines content)))"
    by (simp_all add: scan_file_def)
  then obtain n n' where "line_number x = Some n" "line_number y = Some n'"
    using scan_lines_numbered [of x f ips up 1] scan_lines_numbered [of y f ips up 1] by blast
  with assms(3) have "line_number x = line_number y"
    by (simp add: sort_key_of_def)
  with m show ?thesis by (rule scan_lines_key_determines)
qed

lemma scan_file_key_determines_usage:
  assumes "x \<in> set (snd (scan_file fs ips up f))" and "y \<in> set (snd (scan_file fs ips up f))"
    and "sort_key_of x = sort_key_of y"
  shows "x = y"
proof (cases "read_text fs f")
  case None
  with assms(1) show ?thesis by (simp add: scan_file_def)
next
  case (Some content)
  with assms(1,2) have m: "x \<in> set (snd (scan_lines f ips up 1 (file_lines content)))"
      "y \<in> set (snd (scan_lines f ips up 1 (file_lines content)))"
    by (simp_all add: scan_file_def)
  then obtain n n' where "line_number x = Some n" "line_number y = Some n'"
    using scan_lines_numbered [of x f ips up 1] scan_lines_numbered [of y f ips up 1] by blast
  with assms(3) have "line_number x = line_number y"
    by (simp add: sort_key_of_def)
  with m show ?thesis by (rule scan_lines_key_determines_usage)
qed

lemma scan_files_key_determines:
  assumes "x \<in> set (fst (scan_files fs ips up files))"
    and "y \<in> set (fst (scan_files fs ips up files))"
    and "sort_key_of x = sort_key_of y"
  shows "x = y"
proof -
  from assms(1,2) obtain f g where
    f: "x \<in> set (fst (scan_file fs ips up f))" and g: "y \<in> set (fst (scan_file fs ips up g))"
    by (auto simp: scan_files_def)
  from f g have "path x = f" "path y = g"
    using scan_file_path [of x fs ips up f] scan_file_path [of y fs ips up g] by simp_all
  with assms(3) have "f = g" by (simp add: sort_key_of_def)
  with g have g': "y \<in> set (fst (scan_file fs ips up f))" by simp
  from f g' assms(3) show ?thesis by (rule scan_file_key_determines)
qed

lemma scan_files_key_determines_usage:
  assumes "x \<in> set (snd (scan_files fs ips up files))"
    and "y \<in> set (snd (scan_files fs ips up files))"
    and "sort_key_of x = sort_key_of y"
  shows "x = y"
proof -
  from assms(1,2) obtain f g where
    f: "x \<in> set (snd (scan_file fs ips up f))" and g: "y \<in> set (snd (scan_file fs ips up g))"
    by (auto simp: scan_files_def)
  from f g have "path x = f" "path y = g"
    using scan_file_path [of x fs ips up f] scan_file_path [of y fs ips up g] by simp_all
  with assms(3) have "f = g" by (simp add: sort_key_of_def)
  with g have g': "y \<in> set (snd (scan_file fs ips up f))" by simp
  from f g' assms(3) show ?thesis by (rule scan_file_key_determines_usage)
qed

lemma aggregate_reordered:
  assumes "mset ordered = mset (map (scan_files fs ips up) batches)"
  shows "aggregate pkg lang' pms sdefs ordered =
         aggregate pkg lang' pms sdefs [scan_files fs ips up (concat batches)]"
proof -
  let ?X = "map (scan_files fs ips up) batches"
  have i: "sort_key sort_key_of (pre @ concat (map fst ordered))
      = sort_key sort_key_of (pre @ fst (scan_files fs ips up (concat batches)))" for pre
  proof -
    have "sort_key sort_key_of (pre @ concat (map fst ordered))
        = sort_key sort_key_of (pre @ concat (map fst ?X))"
    proof (rule sort_key_reordered)
      show "mset (concat (map fst ordered)) = mset (concat (map fst ?X))"
        using assms by (rule mset_concat_map)
      show "\<forall>x\<in>set (concat (map fst ?X)). \<forall>y\<in>set (concat (map fst ?X)).
          sort_key_of x = sort_key_of y \<longrightarrow> x = y"
      proof (intro ballI impI)
        fix x y
        assume "x \<in> set (concat (map fst ?X))" "y \<in> set (concat (map fst ?X))"
          and k: "sort_key_of x = sort_key_of y"
        then have "x \<in> set (fst (scan_files fs ips up (concat batches)))"
          "y \<in> set (fst (scan_files fs ips up (concat batches)))"
          by (simp_all only: scan_files_concat)
        then show "x = y" using k by (rule scan_files_key_determines)
      qed
    qed
    then show ?thesis by (simp only: scan_files_concat)
  qed
  have u: "sort_key sort_key_of (concat (map snd ordered))
      = sort_key sort_key_of (snd (scan_files fs ips up (concat batches)))"
  proof -
    have "sort_key sort_key_of ([] @ concat (map snd ordered))
        = sort_key sort_key_of ([] @ concat (map snd ?X))"
    proof (rule sort_key_reordered)
      show "mset (concat (map snd ordered)) = mset (concat (map snd ?X))"
        using assms by (rule mset_concat_map)
      show "\<forall>x\<in>set (concat (map snd ?X)). \<forall>y\<in>set (concat (map snd ?X)).
          sort_key_of x = sort_key_of y \<longrightarrow> x = y"
      proof (intro ballI impI)
        fix x y
        assume "x \<in> set (concat (map snd ?X))" "y \<in> set (concat (map snd ?X))"
          and k: "sort_key_of x = sort_key_of y"
        then have "x \<in> set (snd (scan_files fs ips up (concat batches)))"
          "y \<in> set (snd (scan_files fs ips up (concat batches)))"
          by (simp_all only: scan_files_concat)
        then show "x = y" using k by (rule scan_files_key_determines_usage)
      qed
    qed
    then show ?thesis by (simp only: scan_files_concat append_Nil)
  qed
  show ?thesis
    by (simp add: aggregate_def i u)
qed

lemma find_package_canonical:
  assumes "reorders arrive" and "pool_ok max_workers" and "0 < batch_size"
    and "get_import_patterns pkg (resolve_language fs root lang) = Inr ips"
    and "get_usage_pattern pkg (resolve_language fs root lang) = Inr up"
    and "(if search_packagesets then find_packageset_definition fs root pkg else Inr []) = Inr pms"
    and "find_package_definition fs root pkg (resolve_language fs root lang) = Inr sdefs"
  shows "find_package fs root pkg lang max_workers batch_size search_packagesets arrive =
     Inr (aggregate pkg (resolve_language fs root lang) pms sdefs
            [scan_files fs ips up (iter_source_files fs root (resolve_language fs root lang) True)])"
proof -
  let ?files = "iter_source_files fs root (resolve_language fs root lang) True"
  let ?batches = "chunks (nat batch_size) ?files"
  let ?ordered = "if length ?batches > 1 \<and> max_workers \<noteq> Some 1
                then arrive (map (scan_files fs ips up) ?batches)
                else map (scan_files fs ips up) ?batches"
  from assms(3) have b: "make_batches batch_size ?files = Inr ?batches"
    by (simp add: make_batches_def)
  from assms(3) have c: "concat ?batches = ?files"
    by (simp add: concat_chunks)
  from assms(1) have "mset ?ordered = mset (map (scan_files fs ips up) ?batches)"
    by (simp add: reorders_def)
  from aggregate_reordered [OF this]
  have "aggregate pkg (resolve_language fs root lang) pms sdefs ?ordered
      = aggregate pkg (resolve_language fs root lang) pms sdefs
          [scan_files fs ips up (concat ?batches)]" .
  then have agg: "aggregate pkg (resolve_language fs root lang) pms sdefs ?ordered
      = aggregate pkg (resolve_language fs root lang) pms sdefs [scan_files fs ips up ?files]"
    by (simp only: c)
  have "find_package fs root pkg lang max_workers batch_size search_packagesets arrive
      = Inr (aggregate pkg (resolve_language fs root lang) pms sdefs ?ordered)"
    unfolding find_package_eq [OF assms(4,5)] assms(6,7) b using assms(2) by simp
  then show ?thesis by (simp only: agg)
qed

lemma find_package_same_batch_size:
  assumes "reorders arrive" and "reorders arrive'"
    and "pool_ok max_workers" and "pool_ok max_workers'"
  shows "find_package fs root pkg lang max_workers batch_size search_packagesets arrive
       = find_package fs root pkg lang max_workers' batch_size search_packagesets arrive'"
proof -
  obtain ips where ips: "get_import_patterns pkg (resolve_language fs root lang) = Inr ips"
    using get_import_patterns_total by blast
  obtain up where up: "get_usage_pattern pkg (resolve_language fs root lang) = Inr up"
    using get_usage_pattern_total by blast
  obtain pms where pms:
    "(if search_packagesets then find_packageset_definition fs root pkg else Inr []) = Inr pms"
    using find_packageset_definition_total [of fs root pkg] by (cases search_packagesets) auto
  obtain sdefs where sdefs:
    "find_package_definition fs root pkg (resolve_language fs root lang) = Inr sdefs"
    using find_package_definition_total by blast
  consider "0 < batch_size" | "batch_size = 0" | "batch_size < 0" by linarith
  then show ?thesis
  proof cases
    case 1
    from find_package_canonical [OF assms(1,3) 1 ips up pms sdefs]
      find_package_canonical [OF assms(2,4) 1 ips up pms sdefs]
    show ?thesis by simp
  next
    case 2
    then have "make_batches batch_size
        (iter_source_files fs root (resolve_language fs root lang) True) = Inl ValueError"
      by (simp add: make_batches_def)
    then show ?thesis
      unfolding find_package_eq [OF ips up] pms sdefs by simp
  next
    case 3
    then have "make_batches batch_size
        (iter_source_files fs root (resolve_language fs root lang) True) = Inr []"
      by (simp add: make_batches_def)
    then show ?thesis
      unfolding find_package_eq [OF ips up] pms sdefs by simp
  qed
qed

lemma find_package_sorted:
  assumes "find_package fs root pkg lang max_workers batch_size search_packagesets arrive = Inr r"
  shows "sorted (map sort_key_of (imports r)) \<and> sorted (map sort_key_of (usages r))"
proof -
  from assms obtain pms sdefs ordered where
    "r = aggregate pkg (resolve_language fs root lang) pms sdefs ordered"
    by (rule find_package_cases)
  then show ?thesis by (simp add: aggregate_def)
qed

text \<open>
  Claim C2. Whenever \<open>find_package\<close> returns a result, its import list and its usage
  list are sorted by path and line number, a missing line number counting as zero. For
  every batch size the outcome is the same whether the batches run one after the other
  or on a pool, in whatever order the pool hands the batch results back; and for
  positive batch sizes a result is returned and it is the same for every batch size,
  worker count and arrival order.
\<close>

theorem find_package_order_is_deterministic:
  assumes "reorders arrive" and "reorders arrive'"
    and "pool_ok max_workers" and "pool_ok max_workers'"
  shows "(\<forall>r. find_package fs root pkg lang max_workers batch_size search_packagesets arrive = Inr r
            \<longrightarrow> sorted (map sort_key_of (imports r)) \<and> sorted (map sort_key_of (usages r)))
       \<and> find_package fs root pkg lang max_workers batch_size search_packagesets arrive
           = find_package fs root pkg lang max_workers' batch_size search_packagesets arrive'
       \<and> (0 < batch_size \<and> 0 < batch_size' \<longrightarrow>
            (\<exists>r. find_package fs root pkg lang max_workers batch_size search_packagesets arrive
                    = Inr r
                \<and> find_package fs root pkg lang max_workers' batch_size' search_packagesets arrive'
                    = Inr r))"
proof (intro conjI allI impI)
  fix r
  assume "find_package fs root pkg lang max_workers batch_size search_packagesets arrive = Inr r"
  then show "sorted (map sort_key_of (imports r))" "sorted (map sort_key_of (usages r))"
    using find_package_sorted by blast+
next
  show "find_package fs root pkg lang max_workers batch_size search_packagesets arrive
      = find_package fs root pkg lang max_workers' batch_size search_packagesets arrive'"
    using assms by (rule find_package_same_batch_size)
next
  assume pos: "0 < batch_size \<and> 0 < batch_size'"
  obtain ips where ips: "get_import_patterns pkg (resolve_language fs root lang) = Inr ips"
    using get_import_patterns_total by blast
  obtain up where up: "get_usage_pattern pkg (resolve_language fs root lang) = Inr up"
    using get_usage_pattern_total by blast
  obtain pms where pms:
    "(if search_packagesets then find_packageset_definition fs root pkg else Inr []) = Inr pms"
    using find_packageset_definition_total [of fs root pkg] by (cases search_packagesets) auto
  obtain sdefs where sdefs:
    "find_package_definition fs root pkg (resolve_language fs root lang) = Inr sdefs"
    using find_package_definition_total by blast
  from pos have b: "0 < batch_size" and b': "0 < batch_size'" by simp_all
  from find_package_canonical [OF assms(1,3) b ips up pms sdefs]
    find_package_canonical [OF assms(2,4) b' ips up pms sdefs]
  show "\<exists>r. find_package fs root pkg lang max_workers batch_size search_packagesets arrive = Inr r
        \<and> find_package fs root pkg lang max_workers' batch_size' search_packagesets arrive' = Inr r"
    by blast
qed

lemma scan_file_both_line:
  assumes "read_text fs f = Some both_line" and "is_import_line ips both_line"
  shows "scan_file fs ips up f = ([line_match f ''import'' (1, both_line)], [])"
  using assms by (simp add: scan_file_def scan_lines_enumerate file_lines_both_line)

theorem find_package_order_is_deterministic_witness:
  "reorders (rev :: (package_match list \<times> package_match list) list \<Rightarrow> _)
   \<and> reorders (\<lambda>xs :: (package_match list \<times> package_match list) list. xs)
   \<and> pool_ok None \<and> pool_ok (Some 1)
   \<and> make_batches 1 (iter_source_files three_files [''repo''] ''python'' True)
       = Inr [[[''repo'', ''c.py'']], [[''repo'', ''a.py'']], [[''repo'', ''b.py'']]]
   \<and> (\<exists>r. find_package three_files [''repo''] ''os'' ''python'' None 1 False rev = Inr r
          \<and> find_package three_files [''repo''] ''os'' ''python'' (Some 1) 100 False (\<lambda>xs. xs) = Inr r
          \<and> map path (imports r) = [[''repo'', ''a.py''], [''repo'', ''b.py''], [''repo'', ''c.py'']]
          \<and> sorted (map sort_key_of (imports r)) \<and> sorted (map sort_key_of (usages r)))"
proof -
  have r1: "reorders (rev :: (package_match list \<times> package_match list) list \<Rightarrow> _)"
    by (simp add: reorders_def)
  have r2: "reorders (\<lambda>xs :: (package_match list \<times> package_match list) list. xs)"
    by (simp add: reorders_def)
  have p1: "pool_ok None" and p2: "pool_ok (Some 1)"
    by (simp_all add: pool_ok_def)
  have files: "iter_source_files three_files [''repo''] ''python'' True
      = [[''repo'', ''c.py''], [''repo'', ''a.py''], [''repo'', ''b.py'']]"
    by code_simp
  have batches: "make_batches 1 (iter_source_files three_files [''repo''] ''python'' True)
       = Inr [[[''repo'', ''c.py'']], [[''repo'', ''a.py'']], [[''repo'', ''b.py'']]]"
    by code_simp
  note t = find_package_order_is_deterministic [OF r1 r2 p1 p2,
      where fs = three_files and root = "[''repo'']" and pkg = "''os''" and lang = "''python''"
        and batch_size = 1 and batch_size' = 100 and search_packagesets = False]
  from t have "(0::int) < 1 \<and> (0::int) < 100 \<longrightarrow>
      (\<exists>r. find_package three_files [''repo''] ''os'' ''python'' None 1 False rev = Inr r
         \<and> find_package three_files [''repo''] ''os'' ''python'' (Some 1) 100 False (\<lambda>xs. xs) = Inr r)"
    by (rule conjunct2 [THEN conjunct2])
  then have "\<exists>r. find_package three_files [''repo''] ''os'' ''python'' None 1 False rev = Inr r
         \<and> find_package three_files [''repo''] ''os'' ''python'' (Some 1) 100 False (\<lambda>xs. xs) = Inr r"
    by simp
  then obtain r where
    par: "find_package three_files [''repo''] ''os'' ''python'' None 1 False rev = Inr r"
    and seq: "find_package three_files [''repo''] ''os'' ''python'' (Some 1) 100 False (\<lambda>xs. xs) = Inr r"
    by (elim exE conjE)
  from t have "\<forall>r. find_package three_files [''repo''] ''os'' ''python'' None 1 False rev = Inr r
      \<longrightarrow> sorted (map sort_key_of (imports r)) \<and> sorted (map sort_key_of (usages r))"
    by (rule conjunct1)
  from this [rule_format, OF par]
  have srt1: "sorted (map sort_key_of (imports r))" and srt2: "sorted (map sort_key_of (usages r))"
    by (rule conjunct1, rule conjunct2)
  from both_line_is_import obtain ips where
    ips: "get_import_patterns ''os'' ''python'' = Inr ips" and imp: "is_import_line ips both_line"
    by blast
  from both_line_is_usage obtain up where
    up: "get_usage_pattern ''os'' ''python'' = Inr up"
    by blast
  have lang: "resolve_language three_files [''repo''] ''python'' = ''python''"
    by (simp add: resolve_language_def)
  have sdefs: "find_package_definition three_files [''repo''] ''os'' ''python'' = Inr []"
    by code_simp
  have rd: "read_text three_files [''repo'', ''c.py''] = Some both_line"
    "read_text three_files [''repo'', ''a.py''] = Some both_line"
    "read_text three_files [''repo'', ''b.py''] = Some both_line"
    by (simp_all add: read_text_def three_files_def)
  have "find_package three_files [''repo''] ''os'' ''python'' (Some 1) 100 False (\<lambda>xs. xs)
      = Inr (aggregate ''os'' ''python'' [] []
          [scan_files three_files ips up
             [[''repo'', ''c.py''], [''repo'', ''a.py''], [''repo'', ''b.py'']]])"
    using find_package_canonical [OF r2 p2, of 100 "''os''" three_files "[''repo'']" "''python''"
        ips up False "[]" "[]"] ips up sdefs
    by (simp add: lang files)
  with seq have r: "r = aggregate ''os'' ''python'' [] []
          [scan_files three_files ips up
             [[''repo'', ''c.py''], [''repo'', ''a.py''], [''repo'', ''b.py'']]]"
    by simp
  have "map path (imports r) = map path (sort_key sort_key_of
      [line_match [''repo'', ''c.py''] ''import'' (1, both_line),
       line_match [''repo'', ''a.py''] ''import'' (1, both_line),
       line_match [''repo'', ''b.py''] ''import'' (1, both_line)])"
    unfolding r by (simp add: aggregate_def scan_files_def scan_file_both_line [OF _ imp] rd)
  also have "\<dots> = [[''repo'', ''a.py''], [''repo'', ''b.py''], [''repo'', ''c.py'']]"
    by code_simp
  finally have order: "map path (imports r)
      = [[''repo'', ''a.py''], [''repo'', ''b.py''], [''repo'', ''c.py'']]" .
  have "\<exists>r. find_package three_files [''repo''] ''os'' ''python'' None 1 False rev = Inr r
          \<and> find_package three_files [''repo''] ''os'' ''python'' (Some 1) 100 False (\<lambda>xs. xs) = Inr r
          \<and> map path (imports r) = [[''repo'', ''a.py''], [''repo'', ''b.py''], [''repo'', ''c.py'']]
          \<and> sorted (map sort_key_of (imports r)) \<and> sorted (map sort_key_of (usages r))"
    by (intro exI [of _ r] conjI par seq order srt1 srt2)
  with r1 r2 p1 p2 batches show ?thesis by (intro conjI)
qed

section \<open>Properties of the formatter and of the command line\<close>

text \<open>
  Claim C9 asks for an explicit ``N more'' line in each of the three categories whenever
  its display is cut short. The imports and the usages have it; the definitions do not.
  For two definitions and two imports and a limit of one, one definition and one import
  are shown, the totals in the headings and in the summary are the true ones, the import
  block ends with ``... and 1 more'', and the definition block has no such line.
\<close>

theorem definitions_truncated_without_more_line:
  "format_lines two_of_each [''repo''] 1 =
     Inr [''Search Results for: w (python)'',
          replicate 60 (CHR ''=''),
          [newline] @ icon_definitions @ '' Package Definitions (2):'',
          replicate 40 (CHR ''-''),
          ''  w.py'',
          [newline] @ icon_imports @ '' Imports (2):'',
          replicate 40 (CHR ''-''),
          ''  a.py:1'',
          ''    import w'',
          ''  ... and 1 more'',
          [newline] @ replicate 60 (CHR ''=''),
          ''Summary:'',
          ''  Definitions: 2'',
          ''  Import statements: 2'',
          ''  Usage locations: 0'']"
  by code_simp

lemma py_take_subset: "set (py_take k xs) \<subseteq> set xs"
  by (auto simp: py_take_def dest: in_set_takeD)

lemma collect_lines_total:
  assumes "\<And>m. m \<in> set ms \<Longrightarrow> take (length root) (path m) = root"
  shows "\<exists>ls. collect (match_lines root) ms = Inr ls"
    and "\<exists>ls. collect (definition_line root) ms = Inr ls"
  using assms
  by (auto intro!: collect_total simp: match_lines_def definition_line_def relative_to_def)

lemma format_results_total:
  assumes "\<And>m. m \<in> set (definitions r @ imports r @ usages r)
      \<Longrightarrow> take (length root) (path m) = root"
  shows "\<exists>s. format_results r root k = Inr s"
proof -
  have d: "\<exists>ls. collect (definition_line root) (py_take k (definitions r)) = Inr ls"
    using assms py_take_subset [of k "definitions r"]
    by (intro collect_lines_total(2)) auto
  have i: "\<exists>ls. collect (match_lines root) (py_take k (imports r)) = Inr ls"
    using assms py_take_subset [of k "imports r"]
    by (intro collect_lines_total(1)) auto
  have u: "\<exists>ls. collect (match_lines root) (py_take k (usages r)) = Inr ls"
    using assms py_take_subset [of k "usages r"]
    by (intro collect_lines_total(1)) auto
  from d obtain dl where dl: "collect (definition_line root) (py_take k (definitions r)) = Inr dl"
    by blast
  from i obtain il where il: "collect (match_lines root) (py_take k (imports r)) = Inr il"
    by blast
  from u obtain ul where ul: "collect (match_lines root) (py_take k (usages r)) = Inr ul"
    by blast
  have "\<exists>ds. definitions_block r root k = Inr ds"
    unfolding definitions_block_def dl by (cases "definitions r = []") simp_all
  then obtain ds where ds: "definitions_block r root k = Inr ds" by blast
  have "\<exists>ims. imports_block r root k = Inr ims"
    unfolding imports_block_def il by (cases "imports r = []") simp_all
  then obtain ims where ims: "imports_block r root k = Inr ims" by blast
  have "\<exists>us. usages_block r root k = Inr us"
    unfolding usages_block_def ul by (cases "usages r = []") simp_all
  then obtain us where us: "usages_block r root k = Inr us" by blast
  show ?thesis
    unfolding format_results_def format_lines_def ds ims us by (cases "found r") simp_all
qed

lemma is_dir_exists: "is_dir fs p \<Longrightarrow> exists fs p"
  by (auto simp: is_dir_def exists_def split: option.splits)

lemma main_found:
  assumes "reorders arrive" and "is_dir fs (arg_root a)"
    and "find_package fs (arg_root a) (arg_package_name a) (arg_lang a) (arg_workers a) 100
           (\<not> arg_no_packagesets a) arrive = Inr r"
  shows "snd (main fs a arrive) = (if found r then 0 else 1)"
proof -
  have "take (length (arg_root a)) (path m) = arg_root a"
    if "m \<in> set (definitions r @ imports r @ usages r)" for m
    using find_package_kept [OF assms(1,3) that] by (simp add: under_kept_dirs_def)
  then obtain s where "format_results r (arg_root a) (arg_max_results a) = Inr s"
    using format_results_total [of r "arg_root a" "arg_max_results a"] by blast
  with assms(2,3) is_dir_exists [OF assms(2)] show ?thesis
    by (simp add: main_def)
qed

text \<open>
  Claim C6. The exit status is 0 exactly when the root is a directory and the search
  returns a result with at least one match of some category. It is 1 otherwise: with an
  error message and without any search when the root does not exist or is not a
  directory, and when the search returns a result with no match. (It is also 1, with a
  traceback, when the search raises, which only an invalid worker count can cause.)
\<close>

theorem main_exit_status:
  assumes "reorders arrive"
  shows "(snd (main fs a arrive) = 0 \<longleftrightarrow>
            is_dir fs (arg_root a)
          \<and> (\<exists>r. find_package fs (arg_root a) (arg_package_name a) (arg_lang a) (arg_workers a)
                       100 (\<not> arg_no_packagesets a) arrive = Inr r
                  \<and> found r))
       \<and> (snd (main fs a arrive) = 0 \<or> snd (main fs a arrive) = 1)
       \<and> (\<not> exists fs (arg_root a) \<longrightarrow>
            main fs a arrive
              = (Stderr (''Error: Path does not exist: '' @ str_path (arg_root a)), 1))
       \<and> (exists fs (arg_root a) \<and> \<not> is_dir fs (arg_root a) \<longrightarrow>
            main fs a arrive
              = (Stderr (''Error: Path is not a directory: '' @ str_path (arg_root a)), 1))
       \<and> (\<forall>r. is_dir fs (arg_root a)
              \<and> find_package fs (arg_root a) (arg_package_name a) (arg_lang a) (arg_workers a)
                    100 (\<not> arg_no_packagesets a) arrive = Inr r
              \<and> \<not> found r
            \<longrightarrow> snd (main fs a arrive) = 1)"
proof -
  let ?fp = "find_package fs (arg_root a) (arg_package_name a) (arg_lang a) (arg_workers a)
      100 (\<not> arg_no_packagesets a) arrive"
  have invalid: "snd (main fs a arrive) = 1" if "\<not> is_dir fs (arg_root a)"
    using that by (simp add: main_def)
  have raised: "snd (main fs a arrive) = 1" if "is_dir fs (arg_root a)" "?fp = Inl e" for e
    using that is_dir_exists [OF that(1)] by (simp add: main_def)
  have returned: "snd (main fs a arrive) = (if found r then 0 else 1)"
    if "is_dir fs (arg_root a)" "?fp = Inr r" for r
    using main_found [OF assms that] .
  have iff: "snd (main fs a arrive) = 0 \<longleftrightarrow>
      is_dir fs (arg_root a) \<and> (\<exists>r. ?fp = Inr r \<and> found r)"
  proof (cases "is_dir fs (arg_root a)")
    case False
    with invalid show ?thesis by simp
  next
    case True
    show ?thesis
    proof (cases ?fp)
      case (Inl e)
      with raised [OF True] True show ?thesis by simp
    next
      case (Inr r)
      with returned [OF True] True show ?thesis by simp
    qed
  qed
  have two: "snd (main fs a arrive) = 0 \<or> snd (main fs a arrive) = 1"
  proof (cases "is_dir fs (arg_root a)")
    case False
    with invalid show ?thesis by simp
  next
    case True
    show ?thesis
    proof (cases ?fp)
      case (Inl e)
      with raised [OF True] show ?thesis by simp
    next
      case (Inr r)
      with returned [OF True] show ?thesis by simp
    qed
  qed
  have missing: "main fs a arrive
      = (Stderr (''Error: Path does not exist: '' @ str_path (arg_root a)), 1)"
    if "\<not> exists fs (arg_root a)"
    using that by (simp add: main_def)
  have notdir: "main fs a arrive
      = (Stderr (''Error: Path is not a directory: '' @ str_path (arg_root a)), 1)"
    if "exists fs (arg_root a) \<and> \<not> is_dir fs (arg_root a)"
    using that by (simp add: main_def)
  have none: "snd (main fs a arrive) = 1"
    if "is_dir fs (arg_root a) \<and> ?fp = Inr r \<and> \<not> found r" for r
    using that returned [of r] by simp
  from iff two missing notdir none show ?thesis by blast
qed

theorem main_exit_status_witness:
  "reorders (\<lambda>xs :: (package_match list \<times> package_match list) list. xs)
   \<and> is_dir widgets_tree (arg_root widgets_args)
   \<and> snd (main widgets_tree widgets_args (\<lambda>xs. xs)) = 0
   \<and> snd (main widgets_tree nothing_args (\<lambda>xs. xs)) = 1
   \<and> \<not> exists widgets_tree (arg_root missing_args)
   \<and> main widgets_tree missing_args (\<lambda>xs. xs)
       = (Stderr ''Error: Path does not exist: /elsewhere'', 1)"
proof -
  have ro: "reorders (\<lambda>xs :: (package_match list \<times> package_match list) list. xs)"
    by (simp add: reorders_def)
  have d: "is_dir widgets_tree (arg_root widgets_args)"
    by (simp add: is_dir_def widgets_tree_def widgets_args_def)
  have d': "is_dir widgets_tree (arg_root nothing_args)"
    by (simp add: is_dir_def widgets_tree_def widgets_args_def nothing_args_def)
  have "(case find_package widgets_tree (arg_root widgets_args) (arg_package_name widgets_args)
            (arg_lang widgets_args) (arg_workers widgets_args) 100
            (\<not> arg_no_packagesets widgets_args) (\<lambda>xs. xs) of
           Inl e \<Rightarrow> False | Inr r \<Rightarrow> found r)"
    by code_simp
  then have "\<exists>r. find_package widgets_tree (arg_root widgets_args) (arg_package_name widgets_args)
            (arg_lang widgets_args) (arg_workers widgets_args) 100
            (\<not> arg_no_packagesets widgets_args) (\<lambda>xs. xs) = Inr r \<and> found r"
    by (auto split: sum.splits)
  with main_exit_status [OF ro, of widgets_tree widgets_args] d
  have zero: "snd (main widgets_tree widgets_args (\<lambda>xs. xs)) = 0"
    by blast
  have "(case find_package widgets_tree (arg_root nothing_args) (arg_package_name nothing_args)
            (arg_lang nothing_args) (arg_workers nothing_args) 100
            (\<not> arg_no_packagesets nothing_args) (\<lambda>xs. xs) of
           Inl e \<Rightarrow> False | Inr r \<Rightarrow> \<not> found r)"
    by code_simp
  then obtain r where "find_package widgets_tree (arg_root nothing_args)
            (arg_package_name nothing_args) (arg_lang nothing_args) (arg_workers nothing_args) 100
            (\<not> arg_no_packagesets nothing_args) (\<lambda>xs. xs) = Inr r" "\<not> found r"
    by (auto split: sum.splits)
  with main_exit_status [OF ro, of widgets_tree nothing_args] d'
  have one: "snd (main widgets_tree nothing_args (\<lambda>xs. xs)) = 1"
    by blast
  have m: "\<not> exists widgets_tree (arg_root missing_args)"
    by (simp add: exists_def widgets_tree_def widgets_args_def missing_args_def)
  have "str_path (arg_root missing_args) = ''/elsewhere''"
    by (simp add: str_path_def widgets_args_def missing_args_def)
  with main_exit_status [OF ro, of widgets_tree missing_args] m
  have err: "main widgets_tree missing_args (\<lambda>xs. xs)
       = (Stderr ''Error: Path does not exist: /elsewhere'', 1)"
    by simp
  from ro d zero one m err show ?thesis by (intro conjI)
qed

end
